theory Spec2Isabelle
  imports Main "HOL-Library.Word" "HOL-Library.Signed_Division"
begin

unbundle bit_operations_syntax

section \<open>Data model\<close>

type_synonym u32 = "32 word"

text \<open>
  \<open>Superpage\<close>: a region of the client's DMA buffer. The header is not among the
  sources; the fields are the ones the channel code reads and writes
  (\<open>getOffset()\<close>, \<open>getSize()\<close>, \<open>received\<close>, \<open>ready\<close>). Sizes and addresses
  are \<open>size_t\<close> and \<open>uintptr_t\<close> values, taken as natural numbers.
\<close>

record Superpage =
  offset :: nat
  size_sp :: nat
  received :: nat
  ready :: bool

text \<open>\<open>Superpage::isFilled()\<close>: fully received.\<close>

definition isFilled :: "Superpage \<Rightarrow> bool" where
  "isFilled sp = (received sp = size_sp sp)"

text \<open>\<open>SuperpageQueueEntry\<close>, with the page counters as the \<open>int\<close>s the tick computes with.\<close>

record SuperpageQueueEntry =
  superpage :: Superpage
  busAddress :: nat
  maxPages :: int
  pushedPages :: int

definition getUnpushedPages :: "SuperpageQueueEntry \<Rightarrow> int" where
  "getUnpushedPages e = maxPages e - pushedPages e"

definition isPushed :: "SuperpageQueueEntry \<Rightarrow> bool" where
  "isPushed e = (pushedPages e = maxPages e)"

text \<open>One slot of the Ready-FIFO: two \<open>int32_t\<close> words shared with the card.\<close>

record ReadyFifoEntry =
  entry_length :: u32
  entry_status :: u32

datatype DataArrivalStatus = NoneArrived | PartArrived | WholeArrived

datatype ResetLevel = RL_Nothing | RL_Internal | RL_InternalDiuSiu

datatype LoopbackMode = LB_None | LB_Internal | LB_Siu | LB_Diu | LB_Rorc

datatype GeneratorPattern = Constant | Incremental | Alternating | Flying0 | Flying1 | Random

datatype ResetTarget = FF | RORC | DIU | SIU

datatype DdlCommand = RandCIFST

type_synonym DiuConfig = nat

text \<open>
  The calls the channel makes on the card (\<open>getCrorc()\<close> and the two static BAR 2
  functions), with their arguments. \<open>PushRxFreeFifo\<close> carries the page bus address, the
  page length in 32-bit words and the Ready-FIFO index.
\<close>

datatype CardCommand =
    InitReadoutContinuous
  | StartReadoutContinuous
  | InitDiuVersion
  | ResetCommand ResetTarget DiuConfig
  | ArmDdl ResetTarget DiuConfig
  | StartDataReceiver nat
  | StopDataReceiver
  | PushRxFreeFifo nat nat int
  | ArmDataGenerator nat nat GeneratorPattern nat nat
  | StartDataGenerator nat
  | StopDataGenerator
  | StartTrigger DiuConfig
  | StopTrigger DiuConfig
  | SetLoopbackOn
  | SetSiuLoopback DiuConfig
  | AssertLinkUp
  | SiuCommand DdlCommand
  | DiuCommand DdlCommand
  | AssertFreeFifoEmpty

section \<open>Errors\<close>

text \<open>
  Every exception of the sources is a value. \<open>CrorcException\<close>,
  \<open>CrorcDataArrivalException\<close> and \<open>Exception\<close> are the classes thrown with
  \<open>BOOST_THROW_EXCEPTION\<close> in the channel sources, with their message; the data
  arrival exception also carries the status word, the length word and the descriptor
  index attached to it. \<open>CardError\<close> is an exception out of a card call.
  \<open>ParameterError\<close>, \<open>AlignmentError\<close>, \<open>OutOfRangeError\<close>, \<open>QueueFullError\<close> and
  \<open>QueueEmptyError\<close> are the error kinds the specification gives to the validation and
  queue code that is not among the sources. \<open>AssertionFailed\<close> is a failed \<open>assert\<close>,
  \<open>DivisionByZero\<close> the trap of an integer division by zero, and \<open>EmptyRegionAccess\<close>
  the use of a front accessor or a transition of the superpage queue on an empty region,
  for which the specification gives no result.
\<close>

datatype error =
    CrorcException string
  | CrorcDataArrivalException string u32 u32 int
  | Exception string
  | CardError CardCommand
  | ParameterError
  | AlignmentError
  | OutOfRangeError
  | QueueFullError
  | QueueEmptyError
  | AssertionFailed
  | DivisionByZero
  | EmptyRegionAccess

section \<open>The superpage queue\<close>

text \<open>
  Modelled from the spec: the class \<open>SuperpageQueue\<close> is not among the sources. The
  specification describes it as one ordered collection partitioned into three contiguous
  regions, Filled, Arrivals and Pushing, in this order from the head; an entry joins at
  the tail of Pushing, and a transition advances the boundary between two regions. An
  entry keeps its position in the collection across the transitions, so a position is
  what the C++ references to an entry (\<open>SuperpageQueueEntry&\<close>) are in this model.
  The specification names a bound on the Filled region but no behaviour at that bound;
  no transition of the model depends on it.
\<close>

record SuperpageQueue =
  entries :: "SuperpageQueueEntry list"
  nFilled :: nat
  nArrivals :: nat

definition getFilled :: "SuperpageQueue \<Rightarrow> SuperpageQueueEntry list" where
  "getFilled q = take (nFilled q) (entries q)"

definition getArrivals :: "SuperpageQueue \<Rightarrow> SuperpageQueueEntry list" where
  "getArrivals q = take (nArrivals q) (drop (nFilled q) (entries q))"

definition getPushing :: "SuperpageQueue \<Rightarrow> SuperpageQueueEntry list" where
  "getPushing q = drop (nFilled q + nArrivals q) (entries q)"

definition clear :: "SuperpageQueue" where
  "clear = \<lparr>entries = [], nFilled = 0, nArrivals = 0\<rparr>"

definition getQueueAvailable :: "nat \<Rightarrow> SuperpageQueue \<Rightarrow> int" where
  "getQueueAvailable capacity q =
     int capacity - (int (length (getPushing q)) + int (length (getArrivals q)))"

definition addToQueue :: "nat \<Rightarrow> SuperpageQueueEntry \<Rightarrow> SuperpageQueue \<Rightarrow> error + SuperpageQueue" where
  "addToQueue capacity e q =
     (if getQueueAvailable capacity q \<le> 0 then Inl QueueFullError
      else Inr (q\<lparr>entries := entries q @ [e]\<rparr>))"

definition getPushingFrontEntry :: "SuperpageQueue \<Rightarrow> nat option" where
  "getPushingFrontEntry q =
     (if getPushing q = [] then None else Some (nFilled q + nArrivals q))"

definition getArrivalsFrontEntry :: "SuperpageQueue \<Rightarrow> nat option" where
  "getArrivalsFrontEntry q = (if getArrivals q = [] then None else Some (nFilled q))"

definition removeFromPushingQueue :: "SuperpageQueue \<Rightarrow> error + SuperpageQueue" where
  "removeFromPushingQueue q =
     (if getPushing q = [] then Inl EmptyRegionAccess
      else Inr (q\<lparr>nArrivals := nArrivals q + 1\<rparr>))"

definition moveFromArrivalsToFilledQueue :: "SuperpageQueue \<Rightarrow> error + SuperpageQueue" where
  "moveFromArrivalsToFilledQueue q =
     (if getArrivals q = [] then Inl EmptyRegionAccess
      else Inr (q\<lparr>nFilled := nFilled q + 1, nArrivals := nArrivals q - 1\<rparr>))"

definition removeFromFilledQueue :: "SuperpageQueue \<Rightarrow> error + SuperpageQueueEntry \<times> SuperpageQueue" where
  "removeFromFilledQueue q =
     (case getFilled q of
        [] \<Rightarrow> Inl QueueEmptyError
      | e # _ \<Rightarrow> Inr (e, q\<lparr>entries := tl (entries q), nFilled := nFilled q - 1\<rparr>))"

section \<open>The C-RORC channel\<close>

text \<open>
  Construction-time values of \<open>CrorcDmaChannel\<close>. The fields named \<open>m...\<close> are the
  members the constructor fills from the parameters. \<open>FIFO_QUEUE_MAX\<close>,
  \<open>MAX_SUPERPAGES\<close> (the capacity of the transfer side of the queue) and
  \<open>LoopbackMode::isExternal\<close> are declared in headers that are not among the sources
  and are parameters here. \<open>bufferSize\<close> and \<open>bufferBusAddress\<close> describe the
  registered client buffer. \<open>assertsEnabled\<close> tells whether the build keeps the
  \<open>assert\<close>s (no \<open>NDEBUG\<close>).
\<close>

record Config =
  mPageSize :: nat
  mLoopbackMode :: LoopbackMode
  mGeneratorEnabled :: bool
  mGeneratorPattern :: GeneratorPattern
  mGeneratorDataSize :: nat
  mUseContinuousReadout :: bool
  mReadyFifoAddressBus :: nat
  mDmaBufferUserspace :: nat
  bufferBusAddress :: nat
  bufferSize :: nat
  FIFO_QUEUE_MAX :: int
  MAX_SUPERPAGES :: nat
  isExternal :: "LoopbackMode \<Rightarrow> bool"
  assertsEnabled :: bool

text \<open>The members the constructor sets to constants.\<close>

definition mInitialResetLevel :: ResetLevel where
  "mInitialResetLevel = RL_Internal"

definition mNoRDYRX :: bool where
  "mNoRDYRX = True"

definition mGeneratorMaximumEvents :: nat where
  "mGeneratorMaximumEvents = 0"

definition mGeneratorInitialValue :: nat where
  "mGeneratorInitialValue = 0"

definition mGeneratorInitialWord :: nat where
  "mGeneratorInitialWord = 0"

definition mGeneratorSeed :: "Config \<Rightarrow> nat" where
  "mGeneratorSeed cfg = (if mGeneratorPattern cfg = Random then 1 else 0)"

text \<open>
  Modelled from the spec: \<open>Crorc/Constants.h\<close> is not among the sources. The ring has
  \<open>N = READYFIFO_ENTRIES = 128\<close> slots, and \<open>DTSW\<close> is the byte \<open>0x82\<close> of a whole
  arrival (the status word \<open>0x80000082\<close> is DTSW with the error bit).
\<close>

definition READYFIFO_ENTRIES :: int where
  "READYFIFO_ENTRIES = 128"

definition DTSW :: u32 where
  "DTSW = 0x82"

text \<open>
  The mutable state of the channel, with the three things it shares with the outside:
  \<open>readyFifo\<close> is the Ready-FIFO memory (\<open>getReadyFifoUser()->entries\<close>, indexed
  by \<open>int\<close>), \<open>cardLog\<close> the sequence of calls made on the card so far, and
  \<open>bufferWrites\<close> the sequence of volatile 32-bit writes into the client buffer, each
  with its user-space address.
\<close>

record CrorcDmaChannel =
  mFifoBack :: int
  mFifoSize :: int
  mPendingDmaStart :: bool
  mSuperpageQueue :: SuperpageQueue
  mDiuConfig :: DiuConfig
  readyFifo :: "int \<Rightarrow> ReadyFifoEntry"
  cardLog :: "CardCommand list"
  bufferWrites :: "(nat \<times> u32) list"

text \<open>
  What the card does, as far as the channel can see it: \<open>cardFails\<close> tells, from
  the calls made so far (the last one being the current call), whether the current call
  throws; \<open>diuVersion\<close> is the result of \<open>initDiuVersion\<close>; \<open>afterWait\<close> is
  what the card has written into the Ready-FIFO when the fixed wait of the deferred
  start is over.
\<close>

record Hardware =
  cardFails :: "CardCommand list \<Rightarrow> bool"
  diuVersion :: DiuConfig
  afterWait :: "(int \<Rightarrow> ReadyFifoEntry) \<Rightarrow> int \<Rightarrow> ReadyFifoEntry"

type_synonym 'a action = "CrorcDmaChannel \<Rightarrow> (error + 'a) \<times> CrorcDmaChannel"

text \<open>
  Statements in sequence: the second runs on the state the first leaves, unless the
  first has thrown; then the exception leaves with the state reached so far.
\<close>

definition andThen :: "'a action \<Rightarrow> ('a \<Rightarrow> 'b action) \<Rightarrow> 'b action" where
  "andThen m f s = (case m s of (Inl e, s') \<Rightarrow> (Inl e, s') | (Inr a, s') \<Rightarrow> f a s')"

definition assign :: "(CrorcDmaChannel \<Rightarrow> CrorcDmaChannel) \<Rightarrow> unit action" where
  "assign f s = (Inr (), f s)"

definition assert :: "Config \<Rightarrow> bool \<Rightarrow> unit action" where
  "assert cfg b s = (if assertsEnabled cfg \<and> \<not> b then (Inl AssertionFailed, s) else (Inr (), s))"

definition card :: "Hardware \<Rightarrow> CardCommand \<Rightarrow> unit action" where
  "card hw c s =
     (let s' = s\<lparr>cardLog := cardLog s @ [c]\<rparr>
      in if cardFails hw (cardLog s') then (Inl (CardError c), s') else (Inr (), s'))"

fun cards :: "Hardware \<Rightarrow> CardCommand list \<Rightarrow> unit action" where
  "cards hw [] s = (Inr (), s)"
| "cards hw (c # cs) s =
     (case card hw c s of (Inl e, s') \<Rightarrow> (Inl e, s') | (Inr _, s') \<Rightarrow> cards hw cs s')"

text \<open>Queue transitions on the channel's queue.\<close>

definition onQueue :: "(SuperpageQueue \<Rightarrow> error + SuperpageQueue) \<Rightarrow> unit action" where
  "onQueue f s =
     (case f (mSuperpageQueue s) of
        Inl e \<Rightarrow> (Inl e, s)
      | Inr q \<Rightarrow> (Inr (), s\<lparr>mSuperpageQueue := q\<rparr>))"

definition entryAt :: "CrorcDmaChannel \<Rightarrow> nat \<Rightarrow> SuperpageQueueEntry" where
  "entryAt s i = entries (mSuperpageQueue s) ! i"

definition updEntry :: "nat \<Rightarrow> (SuperpageQueueEntry \<Rightarrow> SuperpageQueueEntry) \<Rightarrow> CrorcDmaChannel \<Rightarrow> CrorcDmaChannel" where
  "updEntry i f s =
     s\<lparr>mSuperpageQueue :=
         (mSuperpageQueue s)\<lparr>entries := (entries (mSuperpageQueue s))[i := f (entryAt s i)]\<rparr>\<rparr>"

text \<open>
  Modelled from the spec: \<open>ReadyFifo::Entry::reset\<close> and \<open>ReadyFifo::reset\<close> are
  not among the sources. Resetting a slot writes \<open>status = -1\<close> and \<open>length = 0\<close>;
  resetting the FIFO resets every slot.
\<close>

definition resetEntry :: ReadyFifoEntry where
  "resetEntry = \<lparr>entry_length = 0, entry_status = - 1\<rparr>"

definition resetDescriptor :: "int \<Rightarrow> CrorcDmaChannel \<Rightarrow> CrorcDmaChannel" where
  "resetDescriptor index s = s\<lparr>readyFifo := (readyFifo s)(index := resetEntry)\<rparr>"

definition resetReadyFifo :: "CrorcDmaChannel \<Rightarrow> CrorcDmaChannel" where
  "resetReadyFifo s = s\<lparr>readyFifo := (\<lambda>_. resetEntry)\<rparr>"

text \<open>
  Modelled from the spec: \<open>getFifoFront\<close> is declared in the class header, which is
  not among the sources. A descriptor is written into ring slot
  \<open>(fifo_back + fifo_size) mod N\<close>; \<open>smod\<close> is the remainder of C++ on \<open>int\<close>.
\<close>

definition getFifoFront :: "CrorcDmaChannel \<Rightarrow> int" where
  "getFifoFront s = (mFifoBack s + mFifoSize s) smod READYFIFO_ENTRIES"

subsection \<open>\<open>deviceStartDma\<close>\<close>

definition deviceStartDma :: "CrorcDmaChannel \<Rightarrow> CrorcDmaChannel" where
  "deviceStartDma s =
     s\<lparr>mFifoBack := 0, mFifoSize := 0, mSuperpageQueue := clear, mPendingDmaStart := True\<rparr>"

subsection \<open>\<open>dataArrived\<close>\<close>

definition dataArrived :: "CrorcDmaChannel \<Rightarrow> int \<Rightarrow> error + DataArrivalStatus" where
  "dataArrived s index =
     (let length = entry_length (readyFifo s index);
          status = entry_status (readyFifo s index)
      in if status = - 1 then Inr NoneArrived
         else if status = 0 then Inr PartArrived
         else if status AND 0xff = DTSW then
           (if status AND push_bit 31 1 \<noteq> 0
            then Inl (CrorcDataArrivalException
                        ''Data arrival status word contains error bits'' status length index)
            else Inr WholeArrived)
         else Inl (CrorcDataArrivalException
                     ''Unrecognized data arrival status word'' status length index))"

subsection \<open>Pushing a page descriptor\<close>

definition getNextSuperpageBusAddress :: "Config \<Rightarrow> SuperpageQueueEntry \<Rightarrow> nat" where
  "getNextSuperpageBusAddress cfg entry =
     (let offset = mPageSize cfg * nat (pushedPages entry)
      in busAddress entry + offset)"

definition pushFreeFifoPage :: "Config \<Rightarrow> Hardware \<Rightarrow> int \<Rightarrow> nat \<Rightarrow> unit action" where
  "pushFreeFifoPage cfg hw readyFifoIndex pageBusAddress =
     (let pageWords = mPageSize cfg div 4
      in card hw (PushRxFreeFifo pageBusAddress pageWords readyFifoIndex))"

definition pushIntoSuperpage :: "Config \<Rightarrow> Hardware \<Rightarrow> nat \<Rightarrow> unit action" where
  "pushIntoSuperpage cfg hw i =
     andThen (\<lambda>s. assert cfg (mFifoSize s < FIFO_QUEUE_MAX cfg) s) (\<lambda>_.
     andThen (\<lambda>s. assert cfg (pushedPages (entryAt s i) < maxPages (entryAt s i)) s) (\<lambda>_.
     andThen (\<lambda>s. pushFreeFifoPage cfg hw (getFifoFront s)
                     (getNextSuperpageBusAddress cfg (entryAt s i)) s) (\<lambda>_.
     andThen (assign (\<lambda>s. s\<lparr>mFifoSize := mFifoSize s + 1\<rparr>)) (\<lambda>_.
     assign (updEntry i (\<lambda>e. e\<lparr>pushedPages := pushedPages e + 1\<rparr>))))))"

subsection \<open>Resetting and arming the card\<close>

text \<open>
  The \<open>sleep_for\<close> calls change no state and are left out. The handler of
  \<open>deviceResetChannel\<close> adds the reset level and the loopback mode to the exception
  and throws it again, so the exception leaves all the same.
\<close>

definition deviceResetChannel :: "Config \<Rightarrow> Hardware \<Rightarrow> ResetLevel \<Rightarrow> unit action" where
  "deviceResetChannel cfg hw resetLevel s =
     (if resetLevel = RL_Nothing then (Inr (), s)
      else cards hw
        ((if resetLevel = RL_Internal
          then [ResetCommand FF (mDiuConfig s), ResetCommand RORC (mDiuConfig s)] else []) @
         (if isExternal cfg (mLoopbackMode cfg)
          then [ArmDdl DIU (mDiuConfig s)] @
               (if resetLevel = RL_InternalDiuSiu \<and> mLoopbackMode cfg \<noteq> LB_Diu
                then [ArmDdl SIU (mDiuConfig s), ArmDdl DIU (mDiuConfig s)] else []) @
               [ArmDdl RORC (mDiuConfig s)]
          else [])) s)"

text \<open>The card calls of \<open>startDataGenerator\<close>, in order, for a DIU configuration.\<close>

definition dataGeneratorCalls :: "Config \<Rightarrow> DiuConfig \<Rightarrow> CardCommand list" where
  "dataGeneratorCalls cfg diu =
     (if LB_None = mLoopbackMode cfg then [StartTrigger diu] else []) @
     [ArmDataGenerator mGeneratorInitialValue mGeneratorInitialWord (mGeneratorPattern cfg)
        (mGeneratorDataSize cfg) (mGeneratorSeed cfg)] @
     (if LB_Internal = mLoopbackMode cfg then [SetLoopbackOn] else []) @
     (if LB_Siu = mLoopbackMode cfg
      then [SetSiuLoopback diu, AssertLinkUp, SiuCommand RandCIFST, DiuCommand RandCIFST]
      else []) @
     [StartDataGenerator mGeneratorMaximumEvents]"

definition startDataGenerator :: "Config \<Rightarrow> Hardware \<Rightarrow> unit action" where
  "startDataGenerator cfg hw s = cards hw (dataGeneratorCalls cfg (mDiuConfig s)) s"

definition startDataReceiving :: "Config \<Rightarrow> Hardware \<Rightarrow> unit action" where
  "startDataReceiving cfg hw =
     andThen (card hw InitDiuVersion) (\<lambda>_.
     andThen (if LB_Siu = mLoopbackMode cfg
              then andThen (deviceResetChannel cfg hw RL_InternalDiuSiu) (\<lambda>_.
                   cards hw [AssertLinkUp, SiuCommand RandCIFST, DiuCommand RandCIFST])
              else assign id) (\<lambda>_.
     (\<lambda>s. cards hw [ResetCommand FF (mDiuConfig s), AssertFreeFifoEmpty,
                     StartDataReceiver (mReadyFifoAddressBus cfg)] s)))"

subsection \<open>\<open>deviceStopDma\<close>\<close>

definition deviceStopDma :: "Config \<Rightarrow> Hardware \<Rightarrow> unit action" where
  "deviceStopDma cfg hw =
     (if mGeneratorEnabled cfg then
        andThen (startDataGenerator cfg hw) (\<lambda>_.
        andThen (card hw StopDataGenerator) (\<lambda>_.
        card hw StopDataReceiver))
      else if \<not> mNoRDYRX then (\<lambda>s. card hw (StopTrigger (mDiuConfig s)) s)
      else assign id)"

subsection \<open>\<open>startPendingDma\<close>\<close>

text \<open>
  The loop that initialises the firmware FIFO: \<open>n\<close> more rounds, the next one for
  ring index \<open>index\<close>. Each round resets the slot and pushes one page of the entry.
\<close>

fun primeFifo :: "Config \<Rightarrow> Hardware \<Rightarrow> nat \<Rightarrow> nat \<Rightarrow> int \<Rightarrow> unit action" where
  "primeFifo cfg hw i 0 index s = (Inr (), s)"
| "primeFifo cfg hw i (Suc n) index s =
     (case pushIntoSuperpage cfg hw i (resetDescriptor index s) of
        (Inl e, s') \<Rightarrow> (Inl e, s')
      | (Inr _, s') \<Rightarrow> primeFifo cfg hw i n (index + 1) s')"

text \<open>
  \<open>i\<close> is the position of \<open>entry\<close>, the front entry of Pushing at the call. The card
  writes into the Ready-FIFO while the channel sleeps; a status other than a whole
  arrival at the last slot is only logged, but \<open>dataArrived\<close> may throw.
\<close>

definition startPendingDma :: "Config \<Rightarrow> Hardware \<Rightarrow> nat \<Rightarrow> unit action" where
  "startPendingDma cfg hw i s =
     (if \<not> mPendingDmaStart s then (Inr (), s)
      else
       (andThen (if mUseContinuousReadout cfg then card hw InitReadoutContinuous else assign id) (\<lambda>_.
        andThen (card hw InitDiuVersion) (\<lambda>_.
        andThen (assign (\<lambda>s. s\<lparr>mDiuConfig := diuVersion hw\<rparr>)) (\<lambda>_.
        andThen (deviceResetChannel cfg hw mInitialResetLevel) (\<lambda>_.
        andThen (startDataReceiving cfg hw) (\<lambda>_.
        andThen (primeFifo cfg hw i (nat READYFIFO_ENTRIES) 0) (\<lambda>_.
        andThen (\<lambda>s. assert cfg (pushedPages (entryAt s i) \<le> maxPages (entryAt s i)) s) (\<lambda>_.
        andThen (\<lambda>s. if pushedPages (entryAt s i) = maxPages (entryAt s i)
                      then onQueue removeFromPushingQueue s else (Inr (), s)) (\<lambda>_.
        andThen (if mGeneratorEnabled cfg then startDataGenerator cfg hw
                 else if \<not> mNoRDYRX
                 then (\<lambda>s. cards hw [AssertLinkUp, SiuCommand RandCIFST, DiuCommand RandCIFST,
                                      StartTrigger (mDiuConfig s)] s)
                 else assign id) (\<lambda>_.
        andThen (assign (\<lambda>s. s\<lparr>readyFifo := afterWait hw (readyFifo s)\<rparr>)) (\<lambda>_.
        andThen (\<lambda>s. (case dataArrived s (READYFIFO_ENTRIES - 1) of
                         Inl e \<Rightarrow> Inl e | Inr _ \<Rightarrow> Inr (), s)) (\<lambda>_.
        andThen (assign (updEntry i (\<lambda>e. e\<lparr>superpage := (superpage e)
                   \<lparr>received := received (superpage e) + nat READYFIFO_ENTRIES * mPageSize cfg\<rparr>\<rparr>))) (\<lambda>_.
        andThen (\<lambda>s. if received (superpage (entryAt s i)) = size_sp (superpage (entryAt s i))
                      then andThen (assign (updEntry i (\<lambda>e. e\<lparr>superpage := (superpage e)\<lparr>ready := True\<rparr>\<rparr>)))
                             (\<lambda>_. onQueue moveFromArrivalsToFilledQueue) s
                      else (Inr (), s)) (\<lambda>_.
        andThen (assign (\<lambda>s. (resetReadyFifo s)\<lparr>mFifoBack := 0, mFifoSize := 0,
                                                 mPendingDmaStart := False\<rparr>)) (\<lambda>_.
        (if mUseContinuousReadout cfg then card hw StartReadoutContinuous else assign id)
        ))))))))))))))) s)"

subsection \<open>\<open>fillSuperpages\<close>\<close>

text \<open>The \<open>for\<close> loop of the push phase: \<open>n\<close> more pages of the entry at \<open>i\<close>.\<close>

fun pushLoop :: "Config \<Rightarrow> Hardware \<Rightarrow> nat \<Rightarrow> nat \<Rightarrow> unit action" where
  "pushLoop cfg hw i 0 s = (Inr (), s)"
| "pushLoop cfg hw i (Suc n) s =
     (case pushIntoSuperpage cfg hw i s of
        (Inl e, s') \<Rightarrow> (Inl e, s')
      | (Inr _, s') \<Rightarrow> pushLoop cfg hw i n s')"

definition pushPhase :: "Config \<Rightarrow> Hardware \<Rightarrow> unit action" where
  "pushPhase cfg hw s =
     (case getPushingFrontEntry (mSuperpageQueue s) of
        None \<Rightarrow> (Inr (), s)
      | Some i \<Rightarrow>
          if mPendingDmaStart s then startPendingDma cfg hw i s
          else
            (let freeDescriptors = FIFO_QUEUE_MAX cfg - mFifoSize s;
                 freePages = getUnpushedPages (entryAt s i);
                 possibleToPush = min freeDescriptors freePages
             in andThen (pushLoop cfg hw i (nat possibleToPush)) (\<lambda>_ s.
                  if isPushed (entryAt s i) then onQueue removeFromPushingQueue s
                  else (Inr (), s)) s))"

text \<open>
  \<open>writeSdhEventSize\<close>: four volatile 32-bit writes, starting 16 bytes into the page.
\<close>

definition writeSdhEventSize :: "nat \<Rightarrow> u32 \<Rightarrow> CrorcDmaChannel \<Rightarrow> CrorcDmaChannel" where
  "writeSdhEventSize pageAddress eventSize s =
     (let OFFSET_SDH_EVENT_SIZE = 16;
          address = pageAddress + OFFSET_SDH_EVENT_SIZE
      in s\<lparr>bufferWrites := bufferWrites s @
            [(address, 0), (address + 4, 0), (address + 8, 0), (address + 12, eventSize)]\<rparr>)"

text \<open>
  One round of the \<open>while\<close> loop of the arrival phase. The result \<open>True\<close> is the end
  of the loop body, \<open>False\<close> is \<open>break\<close>. \<open>getSize()\<close> of a Ready-FIFO slot is
  read as the length word of the slot.
\<close>

definition arrivalBody :: "Config \<Rightarrow> bool action" where
  "arrivalBody cfg s =
     (case getArrivalsFrontEntry (mSuperpageQueue s) of
        None \<Rightarrow> (Inl EmptyRegionAccess, s)
      | Some i \<Rightarrow>
         (case dataArrived s (mFifoBack s) of
            Inl e \<Rightarrow> (Inl e, s)
          | Inr arrival \<Rightarrow>
             if arrival = WholeArrived then
               (let length = entry_length (readyFifo s (mFifoBack s));
                    pageAddress = mDmaBufferUserspace cfg + offset (superpage (entryAt s i))
                                  + received (superpage (entryAt s i));
                    s1 = writeSdhEventSize pageAddress length s;
                    s2 = resetDescriptor (mFifoBack s1) s1;
                    s3 = s2\<lparr>mFifoSize := mFifoSize s2 - 1\<rparr>;
                    s4 = s3\<lparr>mFifoBack := (mFifoBack s3 + 1) smod READYFIFO_ENTRIES\<rparr>;
                    s5 = updEntry i (\<lambda>e. e\<lparr>superpage := (superpage e)
                           \<lparr>received := received (superpage e) + mPageSize cfg\<rparr>\<rparr>) s4
                in if isFilled (superpage (entryAt s5 i))
                   then andThen (onQueue moveFromArrivalsToFilledQueue) (\<lambda>_ s. (Inr True, s))
                          (updEntry i (\<lambda>e. e\<lparr>superpage := (superpage e)\<lparr>ready := True\<rparr>\<rparr>) s5)
                   else (Inr True, s5))
             else (Inr False, s)))"

text \<open>
  The \<open>while (mFifoSize > 0)\<close> loop. A round that ends normally has taken one
  descriptor out of the ring, which is why the loop ends.
\<close>

function arrivalLoop :: "Config \<Rightarrow> unit action" where
  "arrivalLoop cfg s =
     (if 0 < mFifoSize s then
        (case arrivalBody cfg s of
           (Inl e, s') \<Rightarrow> (Inl e, s')
         | (Inr continue, s') \<Rightarrow> if continue then arrivalLoop cfg s' else (Inr (), s'))
      else (Inr (), s))"
  by pat_completeness auto
termination
proof (relation "measure (\<lambda>(cfg, s). nat (mFifoSize s))")
  show "wf (measure (\<lambda>(cfg, s). nat (mFifoSize s)))"
    by simp
next
  fix cfg :: Config and s s' :: CrorcDmaChannel and x :: "error + bool" and continue :: bool
  assume "0 < mFifoSize s" and "(x, s') = arrivalBody cfg s" and "x = Inr continue" and continue
  then have "arrivalBody cfg s = (Inr True, s')"
    by simp
  then have "mFifoSize s' = mFifoSize s - 1"
    by (auto simp: arrivalBody_def Let_def andThen_def onQueue_def updEntry_def
        resetDescriptor_def writeSdhEventSize_def
        split: option.splits sum.splits if_splits)
  with \<open>0 < mFifoSize s\<close> show "((cfg, s'), (cfg, s)) \<in> measure (\<lambda>(cfg, s). nat (mFifoSize s))"
    by simp
qed

declare arrivalLoop.simps [simp del]

definition arrivalPhase :: "Config \<Rightarrow> unit action" where
  "arrivalPhase cfg s =
     (if getArrivals (mSuperpageQueue s) \<noteq> [] then arrivalLoop cfg s else (Inr (), s))"

definition fillSuperpages :: "Config \<Rightarrow> Hardware \<Rightarrow> unit action" where
  "fillSuperpages cfg hw = andThen (pushPhase cfg hw) (\<lambda>_. arrivalPhase cfg)"

subsection \<open>\<open>pushSuperpage\<close> and \<open>popSuperpage\<close>\<close>

text \<open>
  Modelled from the spec: \<open>Utilities::isMultiple\<close>, the base class check
  \<open>checkSuperpage\<close> and \<open>getBusOffsetAddress\<close> are not among the sources. The
  specification has the push validate that the size is positive, that the offset is
  4-byte aligned and that \<open>offset + size \<le> buffer_size\<close>, and it gives the bus
  address of an offset as \<open>buffer_base_bus + offset\<close>.
\<close>

definition isMultiple :: "nat \<Rightarrow> nat \<Rightarrow> bool" where
  "isMultiple a b = (a mod b = 0)"

definition checkSuperpage :: "Config \<Rightarrow> Superpage \<Rightarrow> error option" where
  "checkSuperpage cfg sp =
     (if size_sp sp = 0 then Some ParameterError
      else if offset sp mod 4 \<noteq> 0 then Some AlignmentError
      else if offset sp + size_sp sp > bufferSize cfg then Some OutOfRangeError
      else None)"

definition getBusOffsetAddress :: "Config \<Rightarrow> nat \<Rightarrow> nat" where
  "getBusOffsetAddress cfg off = bufferBusAddress cfg + off"

definition MIN_SIZE :: nat where
  "MIN_SIZE = 1 * 1024 * 1024"

definition pushSuperpage :: "Config \<Rightarrow> Superpage \<Rightarrow> unit action" where
  "pushSuperpage cfg sp s =
     (case checkSuperpage cfg sp of
        Some e \<Rightarrow> (Inl e, s)
      | None \<Rightarrow>
          if \<not> isMultiple (size_sp sp) MIN_SIZE
          then (Inl (CrorcException
             ''Could not enqueue superpage, C-RORC backend requires superpage size multiple of 1 MiB''), s)
          else if mPageSize cfg = 0 then (Inl DivisionByZero, s)
          else
            (let entry = \<lparr>superpage = sp\<lparr>received := 0\<rparr>,
                          busAddress = getBusOffsetAddress cfg (offset sp),
                          maxPages = int (size_sp sp div mPageSize cfg),
                          pushedPages = 0\<rparr>
             in onQueue (addToQueue (MAX_SUPERPAGES cfg) entry) s))"

definition popSuperpage :: "Superpage action" where
  "popSuperpage s =
     (case removeFromFilledQueue (mSuperpageQueue s) of
        Inl e \<Rightarrow> (Inl e, s)
      | Inr (e, q) \<Rightarrow> (Inr (superpage e), s\<lparr>mSuperpageQueue := q\<rparr>))"

subsection \<open>The operations of the channel\<close>

text \<open>
  The calls of a client as they act on the channel itself. \<open>start_dma\<close> and
  \<open>stop_dma\<close> reach the channel through the hooks \<open>deviceStartDma\<close> and
  \<open>deviceStopDma\<close>.
\<close>

datatype Operation = StartDma | FillSuperpages | PushSuperpage Superpage | PopSuperpage | StopDma

fun exec :: "Config \<Rightarrow> Hardware \<Rightarrow> Operation \<Rightarrow> unit action" where
  "exec cfg hw StartDma s = (Inr (), deviceStartDma s)"
| "exec cfg hw FillSuperpages s = fillSuperpages cfg hw s"
| "exec cfg hw (PushSuperpage sp) s = pushSuperpage cfg sp s"
| "exec cfg hw PopSuperpage s = andThen popSuperpage (\<lambda>_ s. (Inr (), s)) s"
| "exec cfg hw StopDma s = deviceStopDma cfg hw s"

subsection \<open>The public \<open>stopDma\<close>\<close>

text \<open>
  Modelled from the spec: \<open>stopDma\<close> of the base class \<open>DmaChannelPdaBase\<close>, which
  \<open>CrorcDmaChannel\<close> inherits and which calls the hook \<open>deviceStopDma\<close>, is not
  among the sources. The specification gives a channel the states Stopped, PendingStart,
  Running and Stopping. \<open>stop_dma\<close> takes a channel that is not Stopped through
  Stopping to Stopped and issues the stop commands through the card; an error of the card
  during the stop is logged and not propagated, so that the stop always completes; and
  \<open>stop_dma\<close> on a Stopped channel is a no-op. Stopping is passed within the call.
  \<open>errorLog\<close> holds the errors that were logged.
\<close>

datatype DmaState = Stopped | PendingStart | Running | Stopping

record DmaChannelPdaBase =
  mDmaState :: DmaState
  device :: CrorcDmaChannel
  errorLog :: "error list"

definition stopDma :: "Config \<Rightarrow> Hardware \<Rightarrow> DmaChannelPdaBase \<Rightarrow> (error + unit) \<times> DmaChannelPdaBase" where
  "stopDma cfg hw c =
     (if mDmaState c = Stopped then (Inr (), c)
      else (case deviceStopDma cfg hw (device c) of
              (Inl e, s') \<Rightarrow>
                (Inr (), c\<lparr>mDmaState := Stopped, device := s', errorLog := errorLog c @ [e]\<rparr>)
            | (Inr _, s') \<Rightarrow> (Inr (), c\<lparr>mDmaState := Stopped, device := s'\<rparr>)))"

section \<open>The dummy channel\<close>

record DummyDmaChannel =
  mTransferQueue :: "Superpage list"
  mReadyQueue :: "Superpage list"
  mBufferSize :: nat

definition TRANSFER_QUEUE_SIZE :: nat where
  "TRANSFER_QUEUE_SIZE = 16"

definition READY_QUEUE_SIZE :: nat where
  "READY_QUEUE_SIZE = 32"

definition Dummy_getTransferQueueAvailable :: "DummyDmaChannel \<Rightarrow> int" where
  "Dummy_getTransferQueueAvailable s = int TRANSFER_QUEUE_SIZE - int (length (mTransferQueue s))"

text \<open>
  The offset and the size of a superpage are \<open>size_t\<close> values, so the sum in the range
  check of \<open>pushSuperpage\<close> is taken modulo \<open>2 ^ 64\<close>.
\<close>

definition Dummy_pushSuperpage :: "Superpage \<Rightarrow> DummyDmaChannel \<Rightarrow> error + DummyDmaChannel" where
  "Dummy_pushSuperpage sp s =
     (if Dummy_getTransferQueueAvailable s = 0
      then Inl (Exception ''Could not push superpage, transfer queue was full'')
      else if size_sp sp = 0
      then Inl (Exception ''Could not enqueue superpage, size == 0'')
      else if \<not> isMultiple (size_sp sp) (32 * 1024)
      then Inl (Exception ''Could not enqueue superpage, size not a multiple of 32 KiB'')
      else if (offset sp + size_sp sp) mod 2 ^ 64 > mBufferSize s
      then Inl (Exception ''Superpage out of range'')
      else if offset sp mod 4 \<noteq> 0
      then Inl (Exception ''Superpage offset not 32-bit aligned'')
      else Inr (s\<lparr>mTransferQueue := mTransferQueue s @ [sp]\<rparr>))"

definition Dummy_popSuperpage :: "DummyDmaChannel \<Rightarrow> error + Superpage \<times> DummyDmaChannel" where
  "Dummy_popSuperpage s =
     (case mReadyQueue s of
        [] \<Rightarrow> Inl (Exception ''Could not pop superpage, ready queue was empty'')
      | sp # rest \<Rightarrow> Inr (sp, s\<lparr>mReadyQueue := rest\<rparr>))"

text \<open>
  The \<open>for\<close> loop of \<open>fillSuperpages\<close>, \<open>n\<close> rounds to go. The loop runs once for
  each superpage that was in the transfer queue, and each round takes one out, so the
  queue has a front in every round; the model stops the loop where it has none.
\<close>

fun Dummy_fillLoop :: "nat \<Rightarrow> DummyDmaChannel \<Rightarrow> DummyDmaChannel" where
  "Dummy_fillLoop 0 s = s"
| "Dummy_fillLoop (Suc n) s =
     (if length (mReadyQueue s) = READY_QUEUE_SIZE then s
      else case mTransferQueue s of
             [] \<Rightarrow> s
           | front # rest \<Rightarrow>
               Dummy_fillLoop n
                 (s\<lparr>mReadyQueue := mReadyQueue s @ [front\<lparr>ready := True, received := size_sp front\<rparr>],
                    mTransferQueue := rest\<rparr>))"

definition Dummy_fillSuperpages :: "DummyDmaChannel \<Rightarrow> DummyDmaChannel" where
  "Dummy_fillSuperpages s = Dummy_fillLoop (length (mTransferQueue s)) s"

definition Dummy_startDma :: "DummyDmaChannel \<Rightarrow> DummyDmaChannel" where
  "Dummy_startDma s = s\<lparr>mTransferQueue := [], mReadyQueue := []\<rparr>"

text \<open>
  A client of the dummy channel: a sequence of calls, run from a state, together with
  the superpages the channel has accepted and the superpages it has handed back, both in
  the order of the calls. A call that throws leaves the channel as it was.
\<close>

datatype DummyCall = CallPush Superpage | CallFill | CallPop

record DummyTrace =
  channel :: DummyDmaChannel
  accepted :: "Superpage list"
  popped :: "Superpage list"

fun Dummy_call :: "DummyTrace \<Rightarrow> DummyCall \<Rightarrow> DummyTrace" where
  "Dummy_call t (CallPush sp) =
     (case Dummy_pushSuperpage sp (channel t) of
        Inl _ \<Rightarrow> t
      | Inr s' \<Rightarrow> t\<lparr>channel := s', accepted := accepted t @ [sp]\<rparr>)"
| "Dummy_call t CallFill = t\<lparr>channel := Dummy_fillSuperpages (channel t)\<rparr>"
| "Dummy_call t CallPop =
     (case Dummy_popSuperpage (channel t) of
        Inl _ \<Rightarrow> t
      | Inr (sp, s') \<Rightarrow> t\<lparr>channel := s', popped := popped t @ [sp]\<rparr>)"

definition Dummy_run :: "nat \<Rightarrow> DummyCall list \<Rightarrow> DummyTrace" where
  "Dummy_run bufSize calls =
     foldl Dummy_call
       \<lparr>channel = \<lparr>mTransferQueue = [], mReadyQueue = [], mBufferSize = bufSize\<rparr>,
        accepted = [], popped = []\<rparr> calls"

text \<open>A superpage as the dummy channel hands it back: marked ready and fully received.\<close>

definition delivered :: "Superpage \<Rightarrow> Superpage" where
  "delivered sp = sp\<lparr>ready := True, received := size_sp sp\<rparr>"

text \<open>
  The accepted superpages, as delivered, are the popped ones followed by the ready queue
  and by the transfer queue as it will be delivered.
\<close>

definition in_order :: "DummyTrace \<Rightarrow> bool" where
  "in_order t \<longleftrightarrow>
     map delivered (accepted t) =
       popped t @ mReadyQueue (channel t) @ map delivered (mTransferQueue (channel t))"

section \<open>Firmware version register (\<open>CrorcDmaChannel::getFirmwareInfo\<close>)\<close>

text \<open>
  Modelled from the spec: \<open>Utilities::getBits\<close> is not among the sources. The
  specification reads \<open>bits[lsb:msb]\<close> as the inclusive bit range from \<open>lsb\<close> to
  \<open>msb\<close>, moved down to bit 0.
\<close>

definition getBits :: "u32 \<Rightarrow> nat \<Rightarrow> nat \<Rightarrow> u32" where
  "getBits x lsb msb = take_bit (msb - lsb + 1) (drop_bit lsb x)"

text \<open>\<open>operator<<\<close> on an unsigned integer writes it in decimal, without padding.\<close>

definition digit :: "nat \<Rightarrow> char" where
  "digit d = char_of (48 + d)"

fun decimal :: "nat \<Rightarrow> string" where
  "decimal n = (if n < 10 then [digit n] else decimal (n div 10) @ [digit (n mod 10)])"

declare decimal.simps [simp del]

text \<open>
  The register value read from \<open>Rorc::RFID\<close> is the argument. All fields are
  \<open>uint32_t\<close>, so the year is a 32-bit sum.
\<close>

definition getFirmwareInfo :: "u32 \<Rightarrow> error + string" where
  "getFirmwareInfo version =
     (let reserved = getBits version 24 31;
          major = getBits version 20 23;
          minor = getBits version 13 19;
          year = getBits version 9 12 + 2000;
          month = getBits version 5 8;
          day = getBits version 0 4
      in if reserved \<noteq> 2
         then Inl (CrorcException ''Static field of version register did not equal 0x2'')
         else Inr (decimal (unat major) @ ''.'' @ decimal (unat minor) @ '':'' @
                   decimal (unat year) @ ''-'' @ decimal (unat month) @ ''-'' @
                   decimal (unat day)))"

section \<open>The push phase in the words of the specification\<close>

text \<open>
  The \<open>k\<close>-th descriptor (counting from 0) that a push phase writes for an entry
  \<open>E\<close>, when the ring had its oldest descriptor at \<open>back\<close> and held \<open>fill\<close>
  descriptors at the start of the phase: it targets bus address
  \<open>E.bus_address + E.pushed_pages * page_size\<close>, has length \<open>page_size / 4\<close>
  words and goes into ring slot \<open>(fifo_back + fifo_size) mod 128\<close>, where
  \<open>E.pushed_pages\<close> and \<open>fifo_size\<close> have both grown by \<open>k\<close>.
\<close>

definition descriptorPush :: "Config \<Rightarrow> SuperpageQueueEntry \<Rightarrow> int \<Rightarrow> int \<Rightarrow> nat \<Rightarrow> CardCommand" where
  "descriptorPush cfg E back fill k =
     PushRxFreeFifo (busAddress E + (nat (pushedPages E) + k) * mPageSize cfg)
       (mPageSize cfg div 4) ((back + fill + int k) mod 128)"

text \<open>
  The channel after \<open>n\<close> such pushes for the entry at position \<open>i\<close>: the
  descriptors are on the card's log, \<open>fifo_size\<close> and the entry's \<open>pushed_pages\<close>
  have grown by \<open>n\<close>.
\<close>

definition afterPushes :: "Config \<Rightarrow> nat \<Rightarrow> nat \<Rightarrow> CrorcDmaChannel \<Rightarrow> CrorcDmaChannel" where
  "afterPushes cfg i n s =
     updEntry i (\<lambda>e. e\<lparr>pushedPages := pushedPages e + int n\<rparr>)
       (s\<lparr>mFifoSize := mFifoSize s + int n,
          cardLog := cardLog s @
            map (descriptorPush cfg (entryAt s i) (mFifoBack s) (mFifoSize s)) [0..<n]\<rparr>)"

section \<open>A channel at work, for concrete runs\<close>

text \<open>
  A configuration with the defaults of the constructor (8 KiB pages, internal loopback,
  generator on), a 4 MiB client buffer and a ring budget of 128 descriptors.
\<close>

definition exampleConfig :: Config where
  "exampleConfig =
     \<lparr>mPageSize = 8192, mLoopbackMode = LB_Internal, mGeneratorEnabled = True,
      mGeneratorPattern = Incremental, mGeneratorDataSize = 8192,
      mUseContinuousReadout = False, mReadyFifoAddressBus = 0x1000,
      mDmaBufferUserspace = 0x40000000, bufferBusAddress = 0x80000000,
      bufferSize = 4 * 1024 * 1024, FIFO_QUEUE_MAX = 128, MAX_SUPERPAGES = 32,
      isExternal = (\<lambda>m. m = LB_Siu \<or> m = LB_Diu), assertsEnabled = True\<rparr>"

text \<open>A card on which no call fails and every page has arrived after the wait.\<close>

definition healthyCard :: Hardware where
  "healthyCard =
     \<lparr>cardFails = (\<lambda>log. False), diuVersion = 1,
      afterWait = (\<lambda>fifo index. \<lparr>entry_length = 2048, entry_status = 0x82\<rparr>)\<rparr>"

text \<open>A card on which stopping the data generator fails.\<close>

definition stuckGeneratorCard :: Hardware where
  "stuckGeneratorCard =
     \<lparr>cardFails = (\<lambda>log. log \<noteq> [] \<and> last log = StopDataGenerator), diuVersion = 1,
      afterWait = (\<lambda>fifo. fifo)\<rparr>"

text \<open>A channel on which nothing has happened yet.\<close>

definition idleChannel :: CrorcDmaChannel where
  "idleChannel =
     \<lparr>mFifoBack = 0, mFifoSize = 0, mPendingDmaStart = False, mSuperpageQueue = clear,
      mDiuConfig = 0, readyFifo = (\<lambda>index. resetEntry), cardLog = [], bufferWrites = []\<rparr>"

text \<open>
  A running channel. Superpage A (the first MiB of the buffer) is fully pushed and has
  received two of its 128 pages; the other 126 descriptors are in the ring, the oldest in
  slot 2, where the card has reported a whole page of 2048 words. Superpage B (the second
  MiB) waits in Pushing with no page pushed.
\<close>

definition entryA :: SuperpageQueueEntry where
  "entryA =
     \<lparr>superpage = \<lparr>offset = 0, size_sp = 1048576, received = 16384, ready = False\<rparr>,
      busAddress = 0x80000000, maxPages = 128, pushedPages = 128\<rparr>"

definition entryB :: SuperpageQueueEntry where
  "entryB =
     \<lparr>superpage = \<lparr>offset = 1048576, size_sp = 1048576, received = 0, ready = False\<rparr>,
      busAddress = 0x80100000, maxPages = 128, pushedPages = 0\<rparr>"

definition runningChannel :: CrorcDmaChannel where
  "runningChannel =
     \<lparr>mFifoBack = 2, mFifoSize = 126, mPendingDmaStart = False,
      mSuperpageQueue = \<lparr>entries = [entryA, entryB], nFilled = 0, nArrivals = 1\<rparr>,
      mDiuConfig = 1,
      readyFifo = (\<lambda>index. if index = 2 then \<lparr>entry_length = 2048, entry_status = 0x82\<rparr>
                            else resetEntry),
      cardLog = [], bufferWrites = []\<rparr>"








text \<open>A public channel in state Running, and one that has been stopped.\<close>

definition runningPublicChannel :: DmaChannelPdaBase where
  "runningPublicChannel = \<lparr>mDmaState = Running, device = runningChannel, errorLog = []\<rparr>"

text \<open>A superpage as a client may hand it in, with a stale \<open>received\<close> count.\<close>

definition clientSuperpage :: Superpage where
  "clientSuperpage = \<lparr>offset = 0, size_sp = 1048576, received = 777, ready = False\<rparr>"

section \<open>The card calls of the deferred start, as lists\<close>

text \<open>
  The calls \<open>deviceResetChannel\<close> and \<open>startDataReceiving\<close> make when none of them
  fails, in order, and the test for a descriptor push among the calls.
\<close>

definition resetCalls :: "Config \<Rightarrow> ResetLevel \<Rightarrow> DiuConfig \<Rightarrow> CardCommand list" where
  "resetCalls cfg resetLevel diu =
     (if resetLevel = RL_Nothing then []
      else (if resetLevel = RL_Internal then [ResetCommand FF diu, ResetCommand RORC diu] else []) @
           (if isExternal cfg (mLoopbackMode cfg)
            then [ArmDdl DIU diu] @
                 (if resetLevel = RL_InternalDiuSiu \<and> mLoopbackMode cfg \<noteq> LB_Diu
                  then [ArmDdl SIU diu, ArmDdl DIU diu] else []) @
                 [ArmDdl RORC diu]
            else []))"

definition dataReceivingCalls :: "Config \<Rightarrow> DiuConfig \<Rightarrow> CardCommand list" where
  "dataReceivingCalls cfg diu =
     [InitDiuVersion] @
     (if LB_Siu = mLoopbackMode cfg
      then resetCalls cfg RL_InternalDiuSiu diu @
           [AssertLinkUp, SiuCommand RandCIFST, DiuCommand RandCIFST]
      else []) @
     [ResetCommand FF diu, AssertFreeFifoEmpty, StartDataReceiver (mReadyFifoAddressBus cfg)]"

fun isPush :: "CardCommand \<Rightarrow> bool" where
  "isPush (PushRxFreeFifo pageBusAddress pageWords readyFifoIndex) = True"
| "isPush c = False"

text \<open>The superpage of the cold start scenario: the first MiB of the buffer.\<close>

definition coldStartSuperpage :: Superpage where
  "coldStartSuperpage = \<lparr>offset = 0, size_sp = 1048576, received = 0, ready = False\<rparr>"

section \<open>What the tick keeps true of the queue\<close>

text \<open>
  Every entry in Filled is marked ready and fully received; the two boundaries lie
  within the collection; while a DMA start is pending, nothing is in Arrivals or Filled;
  and \<open>fifo_back\<close> is not negative.
\<close>

definition filledComplete :: "CrorcDmaChannel \<Rightarrow> bool" where
  "filledComplete s \<longleftrightarrow>
     list_all (\<lambda>e. ready (superpage e) \<and> received (superpage e) = size_sp (superpage e))
       (getFilled (mSuperpageQueue s))
     \<and> nFilled (mSuperpageQueue s) + nArrivals (mSuperpageQueue s)
         \<le> length (entries (mSuperpageQueue s))
     \<and> (if mPendingDmaStart s
         then nFilled (mSuperpageQueue s) = 0 \<and> nArrivals (mSuperpageQueue s) = 0 else True)
     \<and> 0 \<le> mFifoBack s"



section \<open>Verification: firmware version decoding\<close>

lemma unat_getBits:
  "unat (getBits v lsb msb) = (unat v div 2 ^ lsb) mod 2 ^ (msb - lsb + 1)"
proof -
  have "unat (getBits v lsb msb) = take_bit (msb - lsb + 1) (drop_bit lsb (unat v))"
    unfolding getBits_def by (simp only: unsigned_take_bit_eq unat_drop_bit_eq)
  then show ?thesis
    by (simp only: take_bit_eq_mod drop_bit_eq_div)
qed

lemma reserved_field_iff: "getBits v 24 31 = 2 \<longleftrightarrow> unat v div 2 ^ 24 = 2"
proof -
  have lt: "unat v div 2 ^ 24 < 2 ^ 8"
    using unsigned_less [of v, where ?'a = nat] by (simp add: less_mult_imp_div_less)
  have "getBits v 24 31 = 2 \<longleftrightarrow> unat (getBits v 24 31) = unat (2 :: u32)"
    by (simp only: word_unat_eq_iff)
  also have "\<dots> \<longleftrightarrow> unat v div 2 ^ 24 = 2"
    using lt by (simp add: unat_getBits)
  finally show ?thesis .
qed

lemma year_field: "unat (getBits v 9 12 + 2000) = (unat v div 2 ^ 9) mod 2 ^ 4 + 2000"
proof -
  have "unat (getBits v 9 12) < 16"
    by (simp add: unat_getBits)
  then have "unat (getBits v 9 12) + unat (2000 :: u32) < 2 ^ LENGTH(32)"
    by simp
  then have "unat (getBits v 9 12 + 2000) = unat (getBits v 9 12) + unat (2000 :: u32)"
    by (simp only: unat_add_lem [THEN iffD1])
  then show ?thesis by (simp add: unat_getBits)
qed

text \<open>
  Claim C9, as stated, at its own example. The register value with reserved \<open>0x02\<close>,
  major 3, minor \<open>0x14\<close>, year 2, month 3 and day 5 is
  \<open>2 * 2^24 + 3 * 2^20 + 20 * 2^13 + 2 * 2^9 + 3 * 2^5 + 5 = 0x02328465\<close>. The
  claim gives \<open>"3.20:2020-3-5"\<close> for it; \<open>getFirmwareInfo\<close> does not return that
  string.
\<close>

theorem getFirmwareInfo_example_not_2020:
  "getFirmwareInfo (2 * 2 ^ 24 + 3 * 2 ^ 20 + 0x14 * 2 ^ 13 + 2 * 2 ^ 9 + 3 * 2 ^ 5 + 5)
     \<noteq> Inr ''3.20:2020-3-5''"
  by code_simp

text \<open>
  Claim C9, amended. \<open>getFirmwareInfo\<close> fails with a \<open>CrorcException\<close> (the
  specification's \<open>CardError\<close>) whenever bits 24 to 31 of the \<open>RFID\<close> value differ
  from \<open>0x2\<close>. Otherwise it returns \<open>major.minor:year-month-day\<close> in decimal, with
  major = bits 20 to 23, minor = bits 13 to 19, year = bits 9 to 12 plus 2000, month =
  bits 5 to 8 and day = bits 0 to 4. For the value that encodes reserved \<open>0x02\<close>,
  major 3, minor \<open>0x14\<close>, year 2, month 3, day 5 the string is \<open>"3.20:2002-3-5"\<close>:
  the year field has four bits, so the year lies between 2000 and 2015.
\<close>

theorem getFirmwareInfo_decodes:
  "getFirmwareInfo v =
     (if unat v div 2 ^ 24 \<noteq> 2
      then Inl (CrorcException ''Static field of version register did not equal 0x2'')
      else Inr (decimal (unat v div 2 ^ 20 mod 2 ^ 4) @ ''.'' @
                decimal (unat v div 2 ^ 13 mod 2 ^ 7) @ '':'' @
                decimal (unat v div 2 ^ 9 mod 2 ^ 4 + 2000) @ ''-'' @
                decimal (unat v div 2 ^ 5 mod 2 ^ 4) @ ''-'' @
                decimal (unat v mod 2 ^ 5)))
   \<and> getFirmwareInfo (2 * 2 ^ 24 + 3 * 2 ^ 20 + 0x14 * 2 ^ 13 + 2 * 2 ^ 9 + 3 * 2 ^ 5 + 5)
       = Inr ''3.20:2002-3-5''"
proof
  show "getFirmwareInfo v =
     (if unat v div 2 ^ 24 \<noteq> 2
      then Inl (CrorcException ''Static field of version register did not equal 0x2'')
      else Inr (decimal (unat v div 2 ^ 20 mod 2 ^ 4) @ ''.'' @
                decimal (unat v div 2 ^ 13 mod 2 ^ 7) @ '':'' @
                decimal (unat v div 2 ^ 9 mod 2 ^ 4 + 2000) @ ''-'' @
                decimal (unat v div 2 ^ 5 mod 2 ^ 4) @ ''-'' @
                decimal (unat v mod 2 ^ 5)))"
    unfolding getFirmwareInfo_def Let_def
    by (simp only: reserved_field_iff year_field unat_getBits) simp
next
  show "getFirmwareInfo (2 * 2 ^ 24 + 3 * 2 ^ 20 + 0x14 * 2 ^ 13 + 2 * 2 ^ 9 + 3 * 2 ^ 5 + 5)
       = Inr ''3.20:2002-3-5''"
    by code_simp
qed

section \<open>Verification: order of delivery on the dummy channel\<close>

lemma Dummy_fillLoop_keeps_order:
  "mReadyQueue (Dummy_fillLoop n s) @ map delivered (mTransferQueue (Dummy_fillLoop n s))
   = mReadyQueue s @ map delivered (mTransferQueue s)"
  by (induction n s rule: Dummy_fillLoop.induct) (auto simp: delivered_def split: list.splits)

lemma Dummy_call_in_order:
  assumes "in_order t"
  shows "in_order (Dummy_call t c)"
proof (cases c)
  case (CallPush sp)
  then show ?thesis using assms
    by (auto simp: in_order_def Dummy_pushSuperpage_def split: sum.splits if_splits)
next
  case CallFill
  then show ?thesis using assms
    by (simp add: in_order_def Dummy_fillSuperpages_def Dummy_fillLoop_keeps_order)
next
  case CallPop
  then show ?thesis using assms
    by (auto simp: in_order_def Dummy_popSuperpage_def split: sum.splits list.splits)
qed

lemma foldl_Dummy_call_in_order:
  "in_order t \<Longrightarrow> in_order (foldl Dummy_call t calls)"
  by (induction calls arbitrary: t) (simp_all add: Dummy_call_in_order)

lemma Dummy_run_in_order: "in_order (Dummy_run bufSize calls)"
  unfolding Dummy_run_def by (rule foldl_Dummy_call_in_order) (simp add: in_order_def)

lemma Dummy_fillLoop_moves:
  "n \<le> length (mTransferQueue s) \<Longrightarrow> length (mReadyQueue s) + n \<le> READY_QUEUE_SIZE \<Longrightarrow>
   Dummy_fillLoop n s =
     s\<lparr>mReadyQueue := mReadyQueue s @ map delivered (take n (mTransferQueue s)),
       mTransferQueue := drop n (mTransferQueue s)\<rparr>"
proof (induction n arbitrary: s)
  case 0
  then show ?case by simp
next
  case (Suc n)
  from Suc.prems obtain front rest where tq: "mTransferQueue s = front # rest"
    by (cases "mTransferQueue s") auto
  let ?s1 = "s\<lparr>mReadyQueue := mReadyQueue s @ [front\<lparr>ready := True, received := size_sp front\<rparr>],
      mTransferQueue := rest\<rparr>"
  from Suc.prems have notfull: "length (mReadyQueue s) \<noteq> READY_QUEUE_SIZE"
    by simp
  have step: "Dummy_fillLoop (Suc n) s = Dummy_fillLoop n ?s1"
    using notfull by (simp add: tq)
  have "Dummy_fillLoop n ?s1 =
     ?s1\<lparr>mReadyQueue := mReadyQueue ?s1 @ map delivered (take n (mTransferQueue ?s1)),
       mTransferQueue := drop n (mTransferQueue ?s1)\<rparr>"
    using Suc.prems by (intro Suc.IH) (simp_all add: tq)
  then show ?case
    unfolding step by (simp add: tq delivered_def)
qed

lemma Dummy_fillLoop_bounded:
  "length (mTransferQueue (Dummy_fillLoop n s)) \<le> length (mTransferQueue s)
   \<and> (length (mReadyQueue s) \<le> READY_QUEUE_SIZE \<longrightarrow>
       length (mReadyQueue (Dummy_fillLoop n s)) \<le> READY_QUEUE_SIZE)"
  by (induction n s rule: Dummy_fillLoop.induct) (auto split: list.splits)

lemma Dummy_pops:
  "n \<le> length (mReadyQueue (channel t)) \<Longrightarrow>
   foldl Dummy_call t (replicate n CallPop) =
     t\<lparr>channel := (channel t)\<lparr>mReadyQueue := drop n (mReadyQueue (channel t))\<rparr>,
       popped := popped t @ take n (mReadyQueue (channel t))\<rparr>"
proof (induction n arbitrary: t)
  case 0
  then show ?case by simp
next
  case (Suc n)
  from Suc.prems obtain sp rest where rq: "mReadyQueue (channel t) = sp # rest"
    by (cases "mReadyQueue (channel t)") auto
  let ?t1 = "t\<lparr>channel := (channel t)\<lparr>mReadyQueue := rest\<rparr>, popped := popped t @ [sp]\<rparr>"
  have one: "Dummy_call t CallPop = ?t1"
    by (simp add: Dummy_popSuperpage_def rq)
  have "foldl Dummy_call ?t1 (replicate n CallPop) =
     ?t1\<lparr>channel := (channel ?t1)\<lparr>mReadyQueue := drop n (mReadyQueue (channel ?t1))\<rparr>,
       popped := popped ?t1 @ take n (mReadyQueue (channel ?t1))\<rparr>"
    using Suc.prems by (intro Suc.IH) (simp add: rq)
  then show ?case
    by (simp only: replicate_Suc foldl_Cons one) (simp add: rq)
qed

lemma Dummy_call_bounded:
  assumes "length (mTransferQueue (channel t)) \<le> TRANSFER_QUEUE_SIZE"
    and "length (mReadyQueue (channel t)) \<le> READY_QUEUE_SIZE"
  shows "length (mTransferQueue (channel (Dummy_call t c))) \<le> TRANSFER_QUEUE_SIZE
    \<and> length (mReadyQueue (channel (Dummy_call t c))) \<le> READY_QUEUE_SIZE"
proof (cases c)
  case (CallPush sp)
  then show ?thesis using assms
    by (auto simp: Dummy_pushSuperpage_def Dummy_getTransferQueueAvailable_def
        split: sum.splits if_splits)
next
  case CallFill
  from Dummy_fillLoop_bounded [of "length (mTransferQueue (channel t))" "channel t"] assms
  show ?thesis
    by (simp add: CallFill Dummy_fillSuperpages_def)
next
  case CallPop
  then show ?thesis using assms
    by (auto simp: Dummy_popSuperpage_def split: sum.splits list.splits)
qed

lemma foldl_Dummy_call_bounded:
  "length (mTransferQueue (channel t)) \<le> TRANSFER_QUEUE_SIZE \<Longrightarrow>
   length (mReadyQueue (channel t)) \<le> READY_QUEUE_SIZE \<Longrightarrow>
   length (mTransferQueue (channel (foldl Dummy_call t calls))) \<le> TRANSFER_QUEUE_SIZE
    \<and> length (mReadyQueue (channel (foldl Dummy_call t calls))) \<le> READY_QUEUE_SIZE"
proof (induction calls arbitrary: t)
  case Nil
  then show ?case by simp
next
  case (Cons c calls)
  from Dummy_call_bounded [OF Cons.prems, of c]
  have "length (mTransferQueue (channel (Dummy_call t c))) \<le> TRANSFER_QUEUE_SIZE"
    and "length (mReadyQueue (channel (Dummy_call t c))) \<le> READY_QUEUE_SIZE"
    by simp_all
  from Cons.IH [OF this] show ?case
    by simp
qed

lemma Dummy_run_bounded:
  "length (mTransferQueue (channel (Dummy_run bufSize calls))) \<le> TRANSFER_QUEUE_SIZE
    \<and> length (mReadyQueue (channel (Dummy_run bufSize calls))) \<le> READY_QUEUE_SIZE"
  unfolding Dummy_run_def by (rule foldl_Dummy_call_bounded) simp_all

text \<open>
  The client empties the ready queue, lets the channel fill once more, and empties the
  ready queue again.
\<close>

lemma Dummy_drain:
  assumes tq: "length (mTransferQueue (channel t)) \<le> TRANSFER_QUEUE_SIZE"
  shows "foldl Dummy_call t
       (replicate (length (mReadyQueue (channel t))) CallPop @ [CallFill] @
        replicate (length (mTransferQueue (channel t))) CallPop)
     = t\<lparr>channel := (channel t)\<lparr>mReadyQueue := [], mTransferQueue := []\<rparr>,
         popped := popped t @ mReadyQueue (channel t) @ map delivered (mTransferQueue (channel t))\<rparr>"
proof -
  let ?t1 = "t\<lparr>channel := (channel t)\<lparr>mReadyQueue := []\<rparr>,
       popped := popped t @ mReadyQueue (channel t)\<rparr>"
  have p1: "foldl Dummy_call t (replicate (length (mReadyQueue (channel t))) CallPop) = ?t1"
    using Dummy_pops [of "length (mReadyQueue (channel t))" t] by simp
  let ?c2 = "(channel t)\<lparr>mReadyQueue := map delivered (mTransferQueue (channel t)),
      mTransferQueue := []\<rparr>"
  have "Dummy_fillLoop (length (mTransferQueue (channel ?t1))) (channel ?t1) =
      (channel ?t1)\<lparr>mReadyQueue := mReadyQueue (channel ?t1) @
          map delivered (take (length (mTransferQueue (channel ?t1))) (mTransferQueue (channel ?t1))),
        mTransferQueue := drop (length (mTransferQueue (channel ?t1))) (mTransferQueue (channel ?t1))\<rparr>"
    using tq by (intro Dummy_fillLoop_moves) (simp_all add: TRANSFER_QUEUE_SIZE_def READY_QUEUE_SIZE_def)
  then have "Dummy_fillSuperpages (channel ?t1) = ?c2"
    by (simp add: Dummy_fillSuperpages_def)
  then have p2: "Dummy_call ?t1 CallFill = ?t1\<lparr>channel := ?c2\<rparr>"
    by simp
  let ?t2 = "?t1\<lparr>channel := ?c2\<rparr>"
  have p3: "foldl Dummy_call ?t2 (replicate (length (mTransferQueue (channel t))) CallPop)
      = ?t2\<lparr>channel := (channel ?t2)\<lparr>mReadyQueue := drop (length (mTransferQueue (channel t)))
              (mReadyQueue (channel ?t2))\<rparr>,
            popped := popped ?t2 @ take (length (mTransferQueue (channel t))) (mReadyQueue (channel ?t2))\<rparr>"
    by (rule Dummy_pops) simp
  show ?thesis
    by (simp only: foldl_append p1 foldl.simps p2 p3) simp
qed


lemma Dummy_fillLoop_exact:
  "n \<le> length (mTransferQueue s) \<Longrightarrow> length (mReadyQueue s) \<le> READY_QUEUE_SIZE \<Longrightarrow>
   Dummy_fillLoop n s =
     s\<lparr>mReadyQueue := mReadyQueue s @
          map delivered (take (min n (READY_QUEUE_SIZE - length (mReadyQueue s))) (mTransferQueue s)),
       mTransferQueue := drop (min n (READY_QUEUE_SIZE - length (mReadyQueue s))) (mTransferQueue s)\<rparr>"
proof (induction n arbitrary: s)
  case 0
  then show ?case by simp
next
  case (Suc n)
  show ?case
  proof (cases "length (mReadyQueue s) = READY_QUEUE_SIZE")
    case True
    then show ?thesis by simp
  next
    case False
    from Suc.prems obtain front rest where tq: "mTransferQueue s = front # rest"
      by (cases "mTransferQueue s") auto
    let ?s1 = "s\<lparr>mReadyQueue := mReadyQueue s @ [front\<lparr>ready := True, received := size_sp front\<rparr>],
        mTransferQueue := rest\<rparr>"
    have step: "Dummy_fillLoop (Suc n) s = Dummy_fillLoop n ?s1"
      using False by (simp add: tq)
    have k: "min (Suc n) (READY_QUEUE_SIZE - length (mReadyQueue s))
        = Suc (min n (READY_QUEUE_SIZE - length (mReadyQueue ?s1)))"
      using False Suc.prems(2) by auto
    have "Dummy_fillLoop n ?s1 =
       ?s1\<lparr>mReadyQueue := mReadyQueue ?s1 @
            map delivered (take (min n (READY_QUEUE_SIZE - length (mReadyQueue ?s1))) (mTransferQueue ?s1)),
         mTransferQueue := drop (min n (READY_QUEUE_SIZE - length (mReadyQueue ?s1))) (mTransferQueue ?s1)\<rparr>"
      using Suc.prems False by (intro Suc.IH) (simp_all add: tq)
    then show ?thesis
      unfolding step k by (simp add: tq delivered_def)
  qed
qed

text \<open>
  Claim C4. Take any sequence of \<open>pushSuperpage\<close>, \<open>fillSuperpages\<close> and
  \<open>popSuperpage\<close> calls on a dummy channel that starts with empty queues. The
  superpages the accepted pushes handed in, in the order pushed, are the superpages
  \<open>popSuperpage\<close> has returned so far, in the order returned, followed by those still
  in the ready queue and then those still in the transfer queue: nothing is lost,
  repeated or reordered, so the popped sequence is the accepted sequence up to the number
  of pops. The channel does deliver: a further \<open>fillSuperpages\<close> moves the front of the
  transfer queue to the back of the ready queue, as many superpages as the ready queue
  has room for; a further \<open>popSuperpage\<close> returns the front of the ready queue; and
  when the client empties the ready queue, calls \<open>fillSuperpages\<close> once more and
  empties the ready queue again, the popped sequence is the whole accepted sequence and
  both queues are empty. A superpage comes back as the same region (\<open>offset\<close> and
  \<open>size\<close>), with \<open>ready\<close> set and \<open>received\<close> equal to its size, which is what
  \<open>delivered\<close> says.
\<close>

theorem Dummy_order_preservation:
  "map delivered (accepted (Dummy_run bufSize calls)) =
     popped (Dummy_run bufSize calls)
     @ mReadyQueue (channel (Dummy_run bufSize calls))
     @ map delivered (mTransferQueue (channel (Dummy_run bufSize calls)))
   \<and> popped (Dummy_run bufSize calls) =
       take (length (popped (Dummy_run bufSize calls)))
         (map delivered (accepted (Dummy_run bufSize calls)))
   \<and> map (\<lambda>sp. (offset sp, size_sp sp)) (popped (Dummy_run bufSize calls)) =
       take (length (popped (Dummy_run bufSize calls)))
         (map (\<lambda>sp. (offset sp, size_sp sp)) (accepted (Dummy_run bufSize calls)))
   \<and> (let t = Dummy_run bufSize calls;
           k = min (length (mTransferQueue (channel t)))
                 (READY_QUEUE_SIZE - length (mReadyQueue (channel t)))
       in Dummy_run bufSize (calls @ [CallFill]) =
            t\<lparr>channel := (channel t)
                \<lparr>mReadyQueue := mReadyQueue (channel t) @
                    map delivered (take k (mTransferQueue (channel t))),
                  mTransferQueue := drop k (mTransferQueue (channel t))\<rparr>\<rparr>)
   \<and> (let t = Dummy_run bufSize calls
       in Dummy_run bufSize (calls @ [CallPop]) =
            t\<lparr>channel := (channel t)\<lparr>mReadyQueue := drop 1 (mReadyQueue (channel t))\<rparr>,
              popped := popped t @ take 1 (mReadyQueue (channel t))\<rparr>)
   \<and> (let t = Dummy_run bufSize calls;
           drain = replicate (length (mReadyQueue (channel t))) CallPop @ [CallFill] @
                   replicate (length (mTransferQueue (channel t))) CallPop;
           t' = Dummy_run bufSize (calls @ drain)
       in popped t' = map delivered (accepted t) \<and> accepted t' = accepted t
          \<and> mReadyQueue (channel t') = [] \<and> mTransferQueue (channel t') = [])"
proof -
  define t where "t = Dummy_run bufSize calls"
  have eq: "map delivered (accepted t) =
      popped t @ mReadyQueue (channel t) @ map delivered (mTransferQueue (channel t))"
    using Dummy_run_in_order [of bufSize calls] by (simp add: in_order_def t_def)
  then have pre: "popped t = take (length (popped t)) (map delivered (accepted t))"
    by simp
  have region: "(\<lambda>sp. (offset sp, size_sp sp)) \<circ> delivered = (\<lambda>sp. (offset sp, size_sp sp))"
    by (rule ext) (simp add: delivered_def)
  have "map (\<lambda>sp. (offset sp, size_sp sp)) (popped t) =
      map (\<lambda>sp. (offset sp, size_sp sp)) (take (length (popped t)) (map delivered (accepted t)))"
    using pre by simp
  also have "\<dots> = take (length (popped t)) (map (\<lambda>sp. (offset sp, size_sp sp)) (accepted t))"
    by (simp only: take_map map_map region)
  finally have regions: "map (\<lambda>sp. (offset sp, size_sp sp)) (popped t) =
      take (length (popped t)) (map (\<lambda>sp. (offset sp, size_sp sp)) (accepted t))" .
  have bounds: "length (mTransferQueue (channel t)) \<le> TRANSFER_QUEUE_SIZE"
    "length (mReadyQueue (channel t)) \<le> READY_QUEUE_SIZE"
    using Dummy_run_bounded [of bufSize calls] by (simp_all add: t_def)
  have run: "Dummy_run bufSize (calls @ more) = foldl Dummy_call t more" for more
    by (simp add: Dummy_run_def t_def)
  have fill: "Dummy_run bufSize (calls @ [CallFill]) =
      t\<lparr>channel := (channel t)
          \<lparr>mReadyQueue := mReadyQueue (channel t) @
              map delivered (take (min (length (mTransferQueue (channel t)))
                 (READY_QUEUE_SIZE - length (mReadyQueue (channel t)))) (mTransferQueue (channel t))),
            mTransferQueue := drop (min (length (mTransferQueue (channel t)))
                 (READY_QUEUE_SIZE - length (mReadyQueue (channel t)))) (mTransferQueue (channel t))\<rparr>\<rparr>"
    using Dummy_fillLoop_exact [OF order_refl bounds(2)]
    by (simp add: run Dummy_fillSuperpages_def)
  have pop: "Dummy_run bufSize (calls @ [CallPop]) =
      t\<lparr>channel := (channel t)\<lparr>mReadyQueue := drop 1 (mReadyQueue (channel t))\<rparr>,
        popped := popped t @ take 1 (mReadyQueue (channel t))\<rparr>"
    by (cases "mReadyQueue (channel t)") (simp_all add: run Dummy_popSuperpage_def)
  have drained: "Dummy_run bufSize (calls @
        replicate (length (mReadyQueue (channel t))) CallPop @ [CallFill] @
        replicate (length (mTransferQueue (channel t))) CallPop)
      = t\<lparr>channel := (channel t)\<lparr>mReadyQueue := [], mTransferQueue := []\<rparr>,
          popped := popped t @ mReadyQueue (channel t) @ map delivered (mTransferQueue (channel t))\<rparr>"
    unfolding run by (rule Dummy_drain [OF bounds(1)])
  show ?thesis
    unfolding Let_def t_def [symmetric] drained fill pop
    using eq pre regions by simp
qed

text \<open>
  A run: two superpages are accepted and one, of size 0, is refused; after a fill and a
  pop the first has come back, and after the client has drained the channel both have,
  in the order pushed.
\<close>

theorem Dummy_order_preservation_witness:
  "accepted (Dummy_run 4194304
      [CallPush \<lparr>offset = 0, size_sp = 1048576, received = 0, ready = False\<rparr>,
       CallPush \<lparr>offset = 2097152, size_sp = 0, received = 0, ready = False\<rparr>,
       CallPush \<lparr>offset = 1048576, size_sp = 1048576, received = 0, ready = False\<rparr>,
       CallFill, CallPop]) =
     [\<lparr>offset = 0, size_sp = 1048576, received = 0, ready = False\<rparr>,
      \<lparr>offset = 1048576, size_sp = 1048576, received = 0, ready = False\<rparr>]
   \<and> popped (Dummy_run 4194304
      [CallPush \<lparr>offset = 0, size_sp = 1048576, received = 0, ready = False\<rparr>,
       CallPush \<lparr>offset = 2097152, size_sp = 0, received = 0, ready = False\<rparr>,
       CallPush \<lparr>offset = 1048576, size_sp = 1048576, received = 0, ready = False\<rparr>,
       CallFill, CallPop]) =
     [\<lparr>offset = 0, size_sp = 1048576, received = 1048576, ready = True\<rparr>]
   \<and> popped (Dummy_run 4194304
      [CallPush \<lparr>offset = 0, size_sp = 1048576, received = 0, ready = False\<rparr>,
       CallPush \<lparr>offset = 2097152, size_sp = 0, received = 0, ready = False\<rparr>,
       CallPush \<lparr>offset = 1048576, size_sp = 1048576, received = 0, ready = False\<rparr>,
       CallFill, CallPop, CallPop, CallFill]) =
     [\<lparr>offset = 0, size_sp = 1048576, received = 1048576, ready = True\<rparr>,
      \<lparr>offset = 1048576, size_sp = 1048576, received = 1048576, ready = True\<rparr>]"
proof -
  let ?calls = "[CallPush \<lparr>offset = 0, size_sp = 1048576, received = 0, ready = False\<rparr>,
       CallPush \<lparr>offset = 2097152, size_sp = 0, received = 0, ready = False\<rparr>,
       CallPush \<lparr>offset = 1048576, size_sp = 1048576, received = 0, ready = False\<rparr>,
       CallFill, CallPop]"
  have run: "Dummy_run 4194304 ?calls =
      \<lparr>channel = \<lparr>mTransferQueue = [],
          mReadyQueue = [\<lparr>offset = 1048576, size_sp = 1048576, received = 1048576, ready = True\<rparr>],
          mBufferSize = 4194304\<rparr>,
        accepted = [\<lparr>offset = 0, size_sp = 1048576, received = 0, ready = False\<rparr>,
          \<lparr>offset = 1048576, size_sp = 1048576, received = 0, ready = False\<rparr>],
        popped = [\<lparr>offset = 0, size_sp = 1048576, received = 1048576, ready = True\<rparr>]\<rparr>"
    by (simp add: Dummy_run_def Dummy_pushSuperpage_def Dummy_getTransferQueueAvailable_def
        TRANSFER_QUEUE_SIZE_def READY_QUEUE_SIZE_def isMultiple_def Dummy_fillSuperpages_def
        Dummy_popSuperpage_def)
  from Dummy_order_preservation [of 4194304 ?calls]
  show ?thesis
    unfolding Let_def run by (simp add: delivered_def)
qed

section \<open>Verification: the regions of the superpage queue\<close>

lemma regions_append: "getFilled q @ getArrivals q @ getPushing q = entries q"
  unfolding getFilled_def getArrivals_def getPushing_def
  by (simp add: take_add [symmetric] del: append_assoc add: append_assoc [symmetric])

lemma pushing_front:
  assumes "getPushing q = e # rest"
  shows "nFilled q + nArrivals q < length (entries q)"
    and "entries q ! (nFilled q + nArrivals q) = e"
    and "drop (Suc (nFilled q + nArrivals q)) (entries q) = rest"
proof -
  from assms have d: "drop (nFilled q + nArrivals q) (entries q) = e # rest"
    by (simp add: getPushing_def)
  then show lt: "nFilled q + nArrivals q < length (entries q)"
    by (metis drop_all linorder_not_less list.distinct(1))
  from d show "entries q ! (nFilled q + nArrivals q) = e"
    by (rule nth_via_drop)
  from d lt show "drop (Suc (nFilled q + nArrivals q)) (entries q) = rest"
    by (metis Cons_nth_drop_Suc list.inject)
qed


text \<open>Writing to the front entry of Pushing, and moving it to Arrivals.\<close>

lemma update_pushing_front:
  assumes "getPushing q = e # rest"
  shows "getFilled (q\<lparr>entries := (entries q)[nFilled q + nArrivals q := e']\<rparr>) = getFilled q"
    and "getArrivals (q\<lparr>entries := (entries q)[nFilled q + nArrivals q := e']\<rparr>) = getArrivals q"
    and "getPushing (q\<lparr>entries := (entries q)[nFilled q + nArrivals q := e']\<rparr>) = e' # rest"
proof -
  note pf = pushing_front [OF assms]
  show "getFilled (q\<lparr>entries := (entries q)[nFilled q + nArrivals q := e']\<rparr>) = getFilled q"
    by (simp add: getFilled_def)
  show "getArrivals (q\<lparr>entries := (entries q)[nFilled q + nArrivals q := e']\<rparr>) = getArrivals q"
    by (simp add: getArrivals_def drop_update_swap)
  have "drop (nFilled q + nArrivals q) ((entries q)[nFilled q + nArrivals q := e'])
      = e' # drop (Suc (nFilled q + nArrivals q)) (entries q)"
    using pf(1) by (simp add: Cons_nth_drop_Suc [symmetric] del: drop_Suc)
  then show "getPushing (q\<lparr>entries := (entries q)[nFilled q + nArrivals q := e']\<rparr>) = e' # rest"
    using pf(3) by (simp add: getPushing_def)
qed

lemma advance_pushing:
  assumes "getPushing q = e # rest"
  shows "getFilled (q\<lparr>nArrivals := nArrivals q + 1\<rparr>) = getFilled q"
    and "getArrivals (q\<lparr>nArrivals := nArrivals q + 1\<rparr>) = getArrivals q @ [e]"
    and "getPushing (q\<lparr>nArrivals := nArrivals q + 1\<rparr>) = rest"
proof -
  note pf = pushing_front [OF assms]
  show "getFilled (q\<lparr>nArrivals := nArrivals q + 1\<rparr>) = getFilled q"
    by (simp add: getFilled_def)
  have "nArrivals q < length (drop (nFilled q) (entries q))"
    using pf(1) by simp
  then have "take (Suc (nArrivals q)) (drop (nFilled q) (entries q))
      = take (nArrivals q) (drop (nFilled q) (entries q)) @ [drop (nFilled q) (entries q) ! nArrivals q]"
    by (rule take_Suc_conv_app_nth)
  then show "getArrivals (q\<lparr>nArrivals := nArrivals q + 1\<rparr>) = getArrivals q @ [e]"
    using pf(1,2) by (simp add: getArrivals_def)
  show "getPushing (q\<lparr>nArrivals := nArrivals q + 1\<rparr>) = rest"
    using pf(3) by (simp add: getPushing_def)
qed



section \<open>Verification: pushing descriptors\<close>

lemma smod_nonneg: "0 \<le> a \<Longrightarrow> a smod READYFIFO_ENTRIES = a mod 128"
  by (simp add: READYFIFO_ENTRIES_def smod_int_alt_def sgn_if)

lemma card_ok:
  "\<not> cardFails hw (cardLog s @ [c]) \<Longrightarrow> card hw c s = (Inr (), s\<lparr>cardLog := cardLog s @ [c]\<rparr>)"
  by (simp add: card_def Let_def)

lemma cards_ok:
  "\<forall>log. \<not> cardFails hw log \<Longrightarrow> cards hw cs s = (Inr (), s\<lparr>cardLog := cardLog s @ cs\<rparr>)"
  by (induction cs arbitrary: s) (simp_all add: card_ok)

lemma entryAt_updEntry:
  "i < length (entries (mSuperpageQueue s)) \<Longrightarrow> entryAt (updEntry i f s) i = f (entryAt s i)"
  by (simp add: entryAt_def updEntry_def)

lemma updEntry_updEntry:
  "i < length (entries (mSuperpageQueue s)) \<Longrightarrow>
   updEntry i f (updEntry i g s) = updEntry i (\<lambda>e. f (g e)) s"
  by (simp add: entryAt_def updEntry_def)

lemma afterPushes_0:
  "afterPushes cfg i 0 s = s"
  by (simp add: afterPushes_def updEntry_def entryAt_def)

lemma afterPushes_fields:
  "mFifoSize (afterPushes cfg i n s) = mFifoSize s + int n"
  "mFifoBack (afterPushes cfg i n s) = mFifoBack s"
  "mPendingDmaStart (afterPushes cfg i n s) = mPendingDmaStart s"
  "readyFifo (afterPushes cfg i n s) = readyFifo s"
  "bufferWrites (afterPushes cfg i n s) = bufferWrites s"
  "mDiuConfig (afterPushes cfg i n s) = mDiuConfig s"
  "cardLog (afterPushes cfg i n s) = cardLog s @
      map (descriptorPush cfg (entryAt s i) (mFifoBack s) (mFifoSize s)) [0..<n]"
  "nFilled (mSuperpageQueue (afterPushes cfg i n s)) = nFilled (mSuperpageQueue s)"
  "nArrivals (mSuperpageQueue (afterPushes cfg i n s)) = nArrivals (mSuperpageQueue s)"
  "entries (mSuperpageQueue (afterPushes cfg i n s)) =
     (entries (mSuperpageQueue s))[i := (entryAt s i)\<lparr>pushedPages := pushedPages (entryAt s i) + int n\<rparr>]"
  by (simp_all add: afterPushes_def updEntry_def entryAt_def)

lemma pushIntoSuperpage_ok:
  assumes nofail: "\<forall>log. \<not> cardFails hw log"
    and i: "i < length (entries (mSuperpageQueue s))"
    and bk: "0 \<le> mFifoBack s" and sz: "0 \<le> mFifoSize s"
    and pushed: "0 \<le> pushedPages (entryAt s i)"
    and room: "assertsEnabled cfg \<longrightarrow>
        mFifoSize s < FIFO_QUEUE_MAX cfg \<and> pushedPages (entryAt s i) < maxPages (entryAt s i)"
  shows "pushIntoSuperpage cfg hw i s = (Inr (), afterPushes cfg i 1 s)"
  using room bk sz pushed
  by (simp add: pushIntoSuperpage_def andThen_def assert_def assign_def pushFreeFifoPage_def
      card_ok nofail Let_def getFifoFront_def getNextSuperpageBusAddress_def
      afterPushes_def descriptorPush_def updEntry_def entryAt_def smod_nonneg mult.commute)


lemma descriptorPush_shift:
  "0 \<le> pushedPages E \<Longrightarrow>
   descriptorPush cfg (E\<lparr>pushedPages := pushedPages E + int m\<rparr>) b (f + int m) k
     = descriptorPush cfg E b f (m + k)"
  by (simp add: descriptorPush_def nat_add_distrib add.assoc add.left_commute)

lemma map_upt_split:
  "map f [0..<m] @ map (\<lambda>k. f (m + k)) [0..<n] = map f [0..<m + n]"
proof -
  have "map (\<lambda>k. f (m + k)) [0..<n] = map f (map (\<lambda>k. k + m) [0..<n])"
    by (simp add: add.commute)
  also have "\<dots> = map f [m..<m + n]"
    by (simp only: map_add_upt add.commute)
  finally show ?thesis
    by (simp add: upt_add_eq_append [of 0 m n, simplified])
qed

lemma afterPushes_afterPushes:
  assumes "i < length (entries (mSuperpageQueue s))" and "0 \<le> pushedPages (entryAt s i)"
  shows "afterPushes cfg i n (afterPushes cfg i m s) = afterPushes cfg i (m + n) s"
  using assms
  by (simp add: afterPushes_def updEntry_def entryAt_def descriptorPush_shift
      map_upt_split [symmetric] add.assoc)

lemma pushLoop_ok:
  assumes nofail: "\<forall>log. \<not> cardFails hw log"
    and i: "i < length (entries (mSuperpageQueue s))"
    and bk: "0 \<le> mFifoBack s" and sz: "0 \<le> mFifoSize s"
    and pushed: "0 \<le> pushedPages (entryAt s i)"
    and room: "assertsEnabled cfg \<and> 0 < n \<longrightarrow>
        mFifoSize s + int n \<le> FIFO_QUEUE_MAX cfg \<and> pushedPages (entryAt s i) + int n \<le> maxPages (entryAt s i)"
  shows "pushLoop cfg hw i n s = (Inr (), afterPushes cfg i n s)"
  using i bk sz pushed room
proof (induction n arbitrary: s)
  case 0
  show ?case by (simp add: afterPushes_0)
next
  case (Suc n)
  have one: "pushIntoSuperpage cfg hw i s = (Inr (), afterPushes cfg i 1 s)"
    using Suc.prems by (intro pushIntoSuperpage_ok nofail) auto
  have E: "entryAt (afterPushes cfg i 1 s) i = (entryAt s i)\<lparr>pushedPages := pushedPages (entryAt s i) + 1\<rparr>"
    using Suc.prems(1) by (simp add: afterPushes_fields entryAt_def)
  have "pushLoop cfg hw i n (afterPushes cfg i 1 s) = (Inr (), afterPushes cfg i n (afterPushes cfg i 1 s))"
  proof (rule Suc.IH)
    show "i < length (entries (mSuperpageQueue (afterPushes cfg i 1 s)))"
      using Suc.prems(1) by (simp add: afterPushes_fields)
    show "0 \<le> mFifoBack (afterPushes cfg i 1 s)"
      using Suc.prems(2) by (simp add: afterPushes_fields)
    show "0 \<le> mFifoSize (afterPushes cfg i 1 s)"
      using Suc.prems(3) by (simp add: afterPushes_fields)
    show "0 \<le> pushedPages (entryAt (afterPushes cfg i 1 s) i)"
      using Suc.prems(4) by (simp only: E) simp
    show "assertsEnabled cfg \<and> 0 < n \<longrightarrow>
        mFifoSize (afterPushes cfg i 1 s) + int n \<le> FIFO_QUEUE_MAX cfg \<and>
        pushedPages (entryAt (afterPushes cfg i 1 s) i) + int n \<le> maxPages (entryAt (afterPushes cfg i 1 s) i)"
      using Suc.prems(5) by (simp only: E afterPushes_fields) (simp add: add.assoc)
  qed
  then have "pushLoop cfg hw i (Suc n) s = (Inr (), afterPushes cfg i n (afterPushes cfg i 1 s))"
    by (simp add: one)
  then show ?case
    using Suc.prems(1,4) by (simp only: afterPushes_afterPushes) simp
qed

section \<open>Verification: the push phase of the tick\<close>

lemma pushPhase_running:
  assumes pushing: "getPushing (mSuperpageQueue s) = E # rest"
    and running: "\<not> mPendingDmaStart s"
    and nofail: "\<forall>log. \<not> cardFails hw log"
    and bk: "0 \<le> mFifoBack s" and sz: "0 \<le> mFifoSize s" and pushed: "0 \<le> pushedPages E"
    and n_def: "n = nat (min (FIFO_QUEUE_MAX cfg - mFifoSize s) (maxPages E - pushedPages E))"
    and E'_def: "E' = E\<lparr>pushedPages := pushedPages E + int n\<rparr>"
    and s'_def: "s' = snd (pushPhase cfg hw s)"
  shows "fst (pushPhase cfg hw s) = Inr ()"
    and "cardLog s' = cardLog s @ map (descriptorPush cfg E (mFifoBack s) (mFifoSize s)) [0..<n]"
    and "mFifoSize s' = mFifoSize s + int n"
    and "getFilled (mSuperpageQueue s') = getFilled (mSuperpageQueue s)"
    and "getArrivals (mSuperpageQueue s') =
              (if pushedPages E' = maxPages E' then getArrivals (mSuperpageQueue s) @ [E']
               else getArrivals (mSuperpageQueue s))"
    and "getPushing (mSuperpageQueue s') =
              (if pushedPages E' = maxPages E' then rest else E' # rest)"
    and "mFifoBack s' = mFifoBack s" and "mPendingDmaStart s' = mPendingDmaStart s"
    and "readyFifo s' = readyFifo s" and "bufferWrites s' = bufferWrites s"
    and "mDiuConfig s' = mDiuConfig s"
proof -
  define q where "q = mSuperpageQueue s"
  define i where "i = nFilled q + nArrivals q"
  define s1 where "s1 = afterPushes cfg i n s"
  note pf = pushing_front [OF pushing [folded q_def], folded i_def]
  have front: "getPushingFrontEntry (mSuperpageQueue s) = Some i"
    using pushing by (simp add: getPushingFrontEntry_def i_def q_def)
  have E: "entryAt s i = E"
    using pf(2) by (simp add: entryAt_def q_def)
  have loop: "pushLoop cfg hw i n s = (Inr (), s1)"
    unfolding s1_def
  proof (rule pushLoop_ok [OF nofail _ bk sz])
    show "i < length (entries (mSuperpageQueue s))"
      using pf(1) by (simp add: q_def)
    show "0 \<le> pushedPages (entryAt s i)"
      using pushed by (simp add: E)
    show "assertsEnabled cfg \<and> 0 < n \<longrightarrow>
        mFifoSize s + int n \<le> FIFO_QUEUE_MAX cfg \<and>
        pushedPages (entryAt s i) + int n \<le> maxPages (entryAt s i)"
      by (auto simp: E n_def)
  qed
  have Ei: "entries q ! i = E"
    using pf(2) .
  have q1: "mSuperpageQueue s1 = q\<lparr>entries := (entries q)[i := E']\<rparr>"
    by (simp add: s1_def afterPushes_def updEntry_def entryAt_def q_def [symmetric] Ei E'_def)
  note up = update_pushing_front [OF pushing [folded q_def], of E', folded i_def, folded q1]
  have E1: "entryAt s1 i = E'"
    using pf(1) by (simp add: entryAt_def q1)
  have fields1: "cardLog s1 = cardLog s @ map (descriptorPush cfg E (mFifoBack s) (mFifoSize s)) [0..<n]"
    "mFifoSize s1 = mFifoSize s + int n" "mFifoBack s1 = mFifoBack s"
    "mPendingDmaStart s1 = mPendingDmaStart s" "readyFifo s1 = readyFifo s"
    "bufferWrites s1 = bufferWrites s" "mDiuConfig s1 = mDiuConfig s"
    by (simp_all add: s1_def afterPushes_fields E)
  have phase: "pushPhase cfg hw s =
      (if isPushed E' then onQueue removeFromPushingQueue s1 else (Inr (), s1))"
    using running
    by (simp add: pushPhase_def front Let_def getUnpushedPages_def E n_def [symmetric]
        andThen_def loop E1)
  have res: "pushPhase cfg hw s =
      (Inr (), if pushedPages E' = maxPages E'
               then s1\<lparr>mSuperpageQueue := (mSuperpageQueue s1)\<lparr>nArrivals := nArrivals (mSuperpageQueue s1) + 1\<rparr>\<rparr>
               else s1)"
    using up(3) by (simp add: phase isPushed_def onQueue_def removeFromPushingQueue_def)
  note adv = advance_pushing [OF up(3)]
  show "fst (pushPhase cfg hw s) = Inr ()"
    by (simp add: res)
  show "cardLog s' = cardLog s @ map (descriptorPush cfg E (mFifoBack s) (mFifoSize s)) [0..<n]"
    by (simp add: s'_def res fields1)
  show "mFifoSize s' = mFifoSize s + int n"
    by (simp add: s'_def res fields1)
  show "getFilled (mSuperpageQueue s') = getFilled (mSuperpageQueue s)"
    using adv(1) up(1) by (simp add: s'_def res q_def)
  show "getArrivals (mSuperpageQueue s') =
              (if pushedPages E' = maxPages E' then getArrivals (mSuperpageQueue s) @ [E']
               else getArrivals (mSuperpageQueue s))"
    using adv(2) up(2) by (simp add: s'_def res q_def)
  show "getPushing (mSuperpageQueue s') =
              (if pushedPages E' = maxPages E' then rest else E' # rest)"
    using adv(3) up(3) by (simp add: s'_def res q_def)
  show "mFifoBack s' = mFifoBack s" "mPendingDmaStart s' = mPendingDmaStart s"
    "readyFifo s' = readyFifo s" "bufferWrites s' = bufferWrites s"
    "mDiuConfig s' = mDiuConfig s"
    by (simp_all add: s'_def res fields1)
qed

text \<open>
  Claim C3. Pushing is not empty, with front entry \<open>E\<close>, and no DMA start is
  pending; no card call fails; \<open>fifo_back\<close>, \<open>fifo_size\<close> and \<open>E.pushed_pages\<close>
  are not negative. Then the push phase returns normally and has pushed exactly
  \<open>n = min (FIFO_QUEUE_MAX - fifo_size) (E.max_pages - E.pushed_pages)\<close> descriptors
  for \<open>E\<close> (none if that number is negative): the calls added to the card's log are
  the \<open>n\<close> pushes \<open>descriptorPush\<close>, the \<open>k\<close>-th with bus address
  \<open>E.bus_address + (E.pushed_pages + k) * page_size\<close>, length \<open>page_size / 4\<close>
  words and ring slot \<open>(fifo_back + fifo_size + k) mod 128\<close>; \<open>fifo_size\<close> and
  \<open>E.pushed_pages\<close> have grown by \<open>n\<close>; and \<open>E\<close> has moved from the front of
  Pushing to the tail of Arrivals if and only if \<open>E.pushed_pages = E.max_pages\<close> now.
  Nothing else of the channel has changed.
\<close>

theorem pushPhase_pushes:
  assumes "getPushing (mSuperpageQueue s) = E # rest"
    and "\<not> mPendingDmaStart s"
    and "\<forall>log. \<not> cardFails hw log"
    and "0 \<le> mFifoBack s" and "0 \<le> mFifoSize s" and "0 \<le> pushedPages E"
  shows "let n = nat (min (FIFO_QUEUE_MAX cfg - mFifoSize s) (maxPages E - pushedPages E));
             E' = E\<lparr>pushedPages := pushedPages E + int n\<rparr>;
             s' = snd (pushPhase cfg hw s)
         in fst (pushPhase cfg hw s) = Inr ()
          \<and> cardLog s' = cardLog s @ map (descriptorPush cfg E (mFifoBack s) (mFifoSize s)) [0..<n]
          \<and> mFifoSize s' = mFifoSize s + int n
          \<and> getFilled (mSuperpageQueue s') = getFilled (mSuperpageQueue s)
          \<and> getArrivals (mSuperpageQueue s') =
              (if pushedPages E' = maxPages E' then getArrivals (mSuperpageQueue s) @ [E']
               else getArrivals (mSuperpageQueue s))
          \<and> getPushing (mSuperpageQueue s') =
              (if pushedPages E' = maxPages E' then rest else E' # rest)
          \<and> mFifoBack s' = mFifoBack s \<and> mPendingDmaStart s' = mPendingDmaStart s
          \<and> readyFifo s' = readyFifo s \<and> bufferWrites s' = bufferWrites s
          \<and> mDiuConfig s' = mDiuConfig s"
  unfolding Let_def
  by (intro conjI pushPhase_running [OF assms refl refl refl])

theorem pushPhase_pushes_witness:
  "getPushing (mSuperpageQueue runningChannel) = entryB # []
   \<and> \<not> mPendingDmaStart runningChannel
   \<and> (\<forall>log. \<not> cardFails healthyCard log)
   \<and> 0 \<le> mFifoBack runningChannel \<and> 0 \<le> mFifoSize runningChannel \<and> 0 \<le> pushedPages entryB
   \<and> fst (pushPhase exampleConfig healthyCard runningChannel) = Inr ()
   \<and> cardLog (snd (pushPhase exampleConfig healthyCard runningChannel)) =
        [PushRxFreeFifo 0x80100000 2048 0, PushRxFreeFifo 0x80102000 2048 1]
   \<and> mFifoSize (snd (pushPhase exampleConfig healthyCard runningChannel)) = 128
   \<and> getPushing (mSuperpageQueue (snd (pushPhase exampleConfig healthyCard runningChannel))) =
        [entryB\<lparr>pushedPages := 2\<rparr>]"
proof -
  have h1: "getPushing (mSuperpageQueue runningChannel) = entryB # []"
    by (simp add: runningChannel_def getPushing_def)
  have h2: "\<not> mPendingDmaStart runningChannel"
    by (simp add: runningChannel_def)
  have h3: "\<forall>log. \<not> cardFails healthyCard log"
    by (simp add: healthyCard_def)
  have h4: "0 \<le> mFifoBack runningChannel" "0 \<le> mFifoSize runningChannel" "0 \<le> pushedPages entryB"
    by (simp_all add: runningChannel_def entryB_def)
  have n: "nat (min (FIFO_QUEUE_MAX exampleConfig - mFifoSize runningChannel)
                (maxPages entryB - pushedPages entryB)) = 2"
    by (simp add: exampleConfig_def runningChannel_def entryB_def)
  have two: "[0..<2] = [0, Suc 0]"
    by (simp add: upt_rec)
  from pushPhase_pushes [OF h1 h2 h3 h4, of exampleConfig]
  show ?thesis
    using h1 h2 h3 h4
    by (simp add: Let_def n two descriptorPush_def)
      (simp add: exampleConfig_def runningChannel_def entryB_def)
qed

section \<open>Verification: the arrival phase of the tick\<close>

lemma dataArrived_none:
  "entry_status (readyFifo s index) = - 1 \<Longrightarrow> dataArrived s index = Inr NoneArrived"
  by (simp add: dataArrived_def Let_def)

lemma dataArrived_part:
  "entry_status (readyFifo s index) = 0 \<Longrightarrow> dataArrived s index = Inr PartArrived"
  by (simp add: dataArrived_def Let_def)

lemma DTSW_status:
  assumes "st AND 0xff = DTSW"
  shows "st \<noteq> - 1" and "st \<noteq> 0"
  using assms by (auto simp: DTSW_def)

lemma dataArrived_whole:
  assumes "entry_status (readyFifo s index) AND 0xff = DTSW"
    and "entry_status (readyFifo s index) AND push_bit 31 1 = 0"
  shows "dataArrived s index = Inr WholeArrived"
  using assms DTSW_status [OF assms(1)] by (simp add: dataArrived_def Let_def)







section \<open>Verification: stopping DMA\<close>

lemma card_eq_cards: "card hw c s = cards hw [c] s"
  by (cases "card hw c s") (auto split: sum.splits)

lemma cards_append:
  "cards hw (as @ bs) s = andThen (cards hw as) (\<lambda>_. cards hw bs) s"
  by (induction as arbitrary: s) (auto simp: andThen_def split: prod.splits sum.splits)

text \<open>Card calls touch nothing of the channel but the log of calls.\<close>

lemma cards_only_log:
  "cards hw cs s = (r, s') \<Longrightarrow> s' = s\<lparr>cardLog := cardLog s'\<rparr>"
proof (induction cs arbitrary: s)
  case Nil
  then show ?case by auto
next
  case (Cons c cs)
  show ?case
  proof (cases "cardFails hw (cardLog s @ [c])")
    case True
    with Cons.prems show ?thesis
      by (auto simp: card_def Let_def)
  next
    case False
    with Cons.prems have "cards hw cs (s\<lparr>cardLog := cardLog s @ [c]\<rparr>) = (r, s')"
      by (simp add: card_def Let_def)
    from Cons.IH [OF this] show ?thesis
      by (metis CrorcDmaChannel.surjective CrorcDmaChannel.update_convs(7))
  qed
qed

text \<open>
  A sequence of card calls stops at the first call that fails and hands its error on;
  it ends normally exactly when the last call made did not fail.
\<close>

lemma cards_last:
  assumes "cs \<noteq> []" and "cards hw cs s = (r, s')"
  shows "cardLog s' \<noteq> [] \<and> (r = Inr () \<longleftrightarrow> \<not> cardFails hw (cardLog s'))
      \<and> (\<forall>e. r = Inl e \<longrightarrow> e = CardError (last (cardLog s')))
      \<and> length (cardLog s) < length (cardLog s')"
  using assms
proof (induction cs arbitrary: s)
  case Nil
  then show ?case by simp
next
  case (Cons c cs)
  show ?case
  proof (cases "cardFails hw (cardLog s @ [c])")
    case True
    with Cons.prems(2) show ?thesis
      by (auto simp: card_def Let_def)
  next
    case False
    with Cons.prems(2) have rest: "cards hw cs (s\<lparr>cardLog := cardLog s @ [c]\<rparr>) = (r, s')"
      by (simp add: card_def Let_def)
    show ?thesis
    proof (cases "cs = []")
      case True
      with rest False show ?thesis
        by auto
    next
      case ne: False
      from Cons.IH [OF ne rest] show ?thesis
        by auto
    qed
  qed
qed

lemma cards_mDiuConfig:
  "cards hw cs s = (r, s') \<Longrightarrow> mDiuConfig s' = mDiuConfig s"
  by (drule cards_only_log) (metis CrorcDmaChannel.select_convs(5) CrorcDmaChannel.surjective CrorcDmaChannel.update_convs(7))

lemma deviceStopDma_off:
  "\<not> mGeneratorEnabled cfg \<Longrightarrow> deviceStopDma cfg hw s = (Inr (), s)"
  by (simp add: deviceStopDma_def mNoRDYRX_def assign_def)

lemma deviceStopDma_calls:
  assumes "mGeneratorEnabled cfg"
  shows "deviceStopDma cfg hw s =
     cards hw (dataGeneratorCalls cfg (mDiuConfig s) @ [StopDataGenerator, StopDataReceiver]) s"
proof -
  have "cards hw (dataGeneratorCalls cfg (mDiuConfig s) @ [StopDataGenerator, StopDataReceiver]) s
      = andThen (cards hw (dataGeneratorCalls cfg (mDiuConfig s)))
          (\<lambda>_. cards hw [StopDataGenerator, StopDataReceiver]) s"
    by (rule cards_append)
  also have "\<dots> = deviceStopDma cfg hw s"
    using assms
    by (auto simp: deviceStopDma_def andThen_def startDataGenerator_def
        split: prod.splits sum.splits)
  finally show ?thesis by simp
qed

lemma dataGeneratorCalls_nonempty: "dataGeneratorCalls cfg diu \<noteq> []"
  by (simp add: dataGeneratorCalls_def)

text \<open>
  The hook \<open>deviceStopDma\<close> has no handler. With the data generator enabled and a card
  on which \<open>stopDataGenerator\<close> fails, the hook on the idle channel leaves with that
  error.
\<close>

lemma deviceStopDma_hook_raises:
  "fst (deviceStopDma exampleConfig stuckGeneratorCard idleChannel) = Inl (CardError StopDataGenerator)"
  by (simp add: deviceStopDma_def exampleConfig_def stuckGeneratorCard_def idleChannel_def
      andThen_def startDataGenerator_def dataGeneratorCalls_def card_def Let_def)

text \<open>
  With the data generator enabled the hook ends normally exactly when the last card call
  it made did not fail, and when it raises, the error is that of the last call it made
  (the remaining calls are not made). It makes no card call when the data generator is
  disabled.
\<close>

lemma deviceStopDma_hook_outcome:
  "(\<not> mGeneratorEnabled cfg \<longrightarrow> deviceStopDma cfg hw s = (Inr (), s))
   \<and> (mGeneratorEnabled cfg \<longrightarrow>
        (fst (deviceStopDma cfg hw s) = Inr ())
          = (\<not> cardFails hw (cardLog (snd (deviceStopDma cfg hw s))))
      \<and> (\<forall>e. fst (deviceStopDma cfg hw s) = Inl e \<longrightarrow>
              e = CardError (last (cardLog (snd (deviceStopDma cfg hw s))))))
   \<and> ((\<forall>log. \<not> cardFails hw log) \<longrightarrow> fst (deviceStopDma cfg hw s) = Inr ())"
proof (intro conjI impI)
  assume "\<not> mGeneratorEnabled cfg"
  then show "deviceStopDma cfg hw s = (Inr (), s)"
    by (rule deviceStopDma_off)
next
  assume on: "mGeneratorEnabled cfg"
  obtain r s' where run: "deviceStopDma cfg hw s = (r, s')"
    by (cases "deviceStopDma cfg hw s")
  note last = cards_last [OF _ run [unfolded deviceStopDma_calls [OF on]]]
  show "(fst (deviceStopDma cfg hw s) = Inr ())
          = (\<not> cardFails hw (cardLog (snd (deviceStopDma cfg hw s))))"
    using last by (simp add: run)
  show "\<forall>e. fst (deviceStopDma cfg hw s) = Inl e \<longrightarrow>
              e = CardError (last (cardLog (snd (deviceStopDma cfg hw s))))"
    using last by (simp add: run)
next
  assume ok: "\<forall>log. \<not> cardFails hw log"
  show "fst (deviceStopDma cfg hw s) = Inr ()"
  proof (cases "mGeneratorEnabled cfg")
    case True
    then show ?thesis
      by (simp add: deviceStopDma_calls cards_ok [OF ok])
  next
    case False
    then show ?thesis
      by (simp add: deviceStopDma_off)
  qed
qed

text \<open>
  The hook keeps no record of having stopped: it never changes the channel's own state,
  only makes card calls, and with the data generator enabled a second call makes them
  again.
\<close>

lemma deviceStopDma_hook_again:
  "cardLog (snd (deviceStopDma exampleConfig healthyCard
                   (snd (deviceStopDma exampleConfig healthyCard idleChannel))))
     \<noteq> cardLog (snd (deviceStopDma exampleConfig healthyCard idleChannel))"
  by (simp add: deviceStopDma_def exampleConfig_def healthyCard_def idleChannel_def
      andThen_def startDataGenerator_def dataGeneratorCalls_def card_def Let_def)

lemma deviceStopDma_hook_repeats:
  "snd (deviceStopDma cfg hw s) = s\<lparr>cardLog := cardLog (snd (deviceStopDma cfg hw s))\<rparr>
   \<and> (\<not> mGeneratorEnabled cfg \<longrightarrow>
        deviceStopDma cfg hw (snd (deviceStopDma cfg hw s)) = (Inr (), s))
   \<and> (mGeneratorEnabled cfg \<and> (\<forall>log. \<not> cardFails hw log) \<longrightarrow>
        (let calls = dataGeneratorCalls cfg (mDiuConfig s) @ [StopDataGenerator, StopDataReceiver];
             s1 = snd (deviceStopDma cfg hw s);
             s2 = snd (deviceStopDma cfg hw s1)
         in cardLog s1 = cardLog s @ calls \<and> cardLog s2 = cardLog s1 @ calls))"
proof (intro conjI impI)
  show "snd (deviceStopDma cfg hw s) = s\<lparr>cardLog := cardLog (snd (deviceStopDma cfg hw s))\<rparr>"
  proof (cases "mGeneratorEnabled cfg")
    case True
    obtain r s' where run: "deviceStopDma cfg hw s = (r, s')"
      by (cases "deviceStopDma cfg hw s")
    from cards_only_log [OF run [unfolded deviceStopDma_calls [OF True]]]
    show ?thesis
      by (simp add: run)
  next
    case False
    then show ?thesis
      by (simp add: deviceStopDma_off)
  qed
next
  assume "\<not> mGeneratorEnabled cfg"
  then show "deviceStopDma cfg hw (snd (deviceStopDma cfg hw s)) = (Inr (), s)"
    by (simp add: deviceStopDma_off)
next
  assume "mGeneratorEnabled cfg \<and> (\<forall>log. \<not> cardFails hw log)"
  then have on: "mGeneratorEnabled cfg" and ok: "\<forall>log. \<not> cardFails hw log"
    by simp_all
  show "let calls = dataGeneratorCalls cfg (mDiuConfig s) @ [StopDataGenerator, StopDataReceiver];
             s1 = snd (deviceStopDma cfg hw s);
             s2 = snd (deviceStopDma cfg hw s1)
         in cardLog s1 = cardLog s @ calls \<and> cardLog s2 = cardLog s1 @ calls"
    by (simp add: Let_def deviceStopDma_calls [OF on] cards_ok [OF ok])
qed

text \<open>
  Claim C7. \<open>stop_dma\<close>, the public call as the specification describes it: for every
  configuration, every card and every channel state it completes without raising an
  error and leaves the channel Stopped. When the channel was not Stopped, the call has
  run the hook \<open>deviceStopDma\<close>: the channel is as the hook left it, and an error
  that the hook raised, which is the error of a card call, is on the log and is not
  propagated.
\<close>

theorem stopDma_completes:
  "fst (stopDma cfg hw c) = Inr ()
   \<and> mDmaState (snd (stopDma cfg hw c)) = Stopped
   \<and> (mDmaState c \<noteq> Stopped \<longrightarrow>
        device (snd (stopDma cfg hw c)) = snd (deviceStopDma cfg hw (device c))
      \<and> errorLog (snd (stopDma cfg hw c)) =
          errorLog c @ (case fst (deviceStopDma cfg hw (device c)) of Inl e \<Rightarrow> [e] | Inr u \<Rightarrow> []))"
  by (auto simp: stopDma_def split: prod.splits sum.splits)

text \<open>
  A stop on a card on which \<open>stopDataGenerator\<close> fails: the hook leaves with the
  error after four card calls, the public call returns normally with the error logged.
\<close>

theorem stopDma_completes_witness:
  "mDmaState runningPublicChannel \<noteq> Stopped
   \<and> fst (deviceStopDma exampleConfig stuckGeneratorCard (device runningPublicChannel))
       = Inl (CardError StopDataGenerator)
   \<and> fst (stopDma exampleConfig stuckGeneratorCard runningPublicChannel) = Inr ()
   \<and> mDmaState (snd (stopDma exampleConfig stuckGeneratorCard runningPublicChannel)) = Stopped
   \<and> errorLog (snd (stopDma exampleConfig stuckGeneratorCard runningPublicChannel))
       = [CardError StopDataGenerator]
   \<and> cardLog (device (snd (stopDma exampleConfig stuckGeneratorCard runningPublicChannel)))
       = [ArmDataGenerator 0 0 Incremental 8192 0, SetLoopbackOn, StartDataGenerator 0,
          StopDataGenerator]"
proof -
  have running: "mDmaState runningPublicChannel \<noteq> Stopped"
    by (simp add: runningPublicChannel_def)
  have hook: "deviceStopDma exampleConfig stuckGeneratorCard (device runningPublicChannel)
      = (Inl (CardError StopDataGenerator),
         runningChannel\<lparr>cardLog := [ArmDataGenerator 0 0 Incremental 8192 0, SetLoopbackOn,
           StartDataGenerator 0, StopDataGenerator]\<rparr>)"
    by (simp add: deviceStopDma_def exampleConfig_def stuckGeneratorCard_def
        runningPublicChannel_def runningChannel_def
        andThen_def startDataGenerator_def dataGeneratorCalls_def card_def Let_def
        mGeneratorInitialValue_def mGeneratorInitialWord_def mGeneratorSeed_def
        mGeneratorMaximumEvents_def)
  from stopDma_completes [of exampleConfig stuckGeneratorCard runningPublicChannel]
  show ?thesis
    using running by (simp add: hook) (simp add: runningPublicChannel_def)
qed

text \<open>
  Claim C8. For every channel state, \<open>stop_dma\<close> followed by \<open>stop_dma\<close>, on any
  card, is the same as one \<open>stop_dma\<close>: the second call returns normally, leaves the
  channel exactly as the first call left it and makes no card call.
\<close>

theorem stopDma_idempotent:
  "stopDma cfg hw' (snd (stopDma cfg hw c)) = (Inr (), snd (stopDma cfg hw c))
   \<and> cardLog (device (snd (stopDma cfg hw' (snd (stopDma cfg hw c)))))
       = cardLog (device (snd (stopDma cfg hw c)))
   \<and> snd (stopDma cfg hw' (snd (stopDma cfg hw c))) = snd (stopDma cfg hw c)"
  by (auto simp: stopDma_def split: prod.splits sum.splits)

text \<open>
  Stopping the running channel twice on a card on which no call fails: the first stop
  makes five card calls, the second makes none.
\<close>

theorem stopDma_idempotent_witness:
  "cardLog (device (snd (stopDma exampleConfig healthyCard runningPublicChannel)))
     = [ArmDataGenerator 0 0 Incremental 8192 0, SetLoopbackOn, StartDataGenerator 0,
        StopDataGenerator, StopDataReceiver]
   \<and> stopDma exampleConfig healthyCard (snd (stopDma exampleConfig healthyCard runningPublicChannel))
       = (Inr (), snd (stopDma exampleConfig healthyCard runningPublicChannel))
   \<and> cardLog (device (snd (stopDma exampleConfig healthyCard
        (snd (stopDma exampleConfig healthyCard runningPublicChannel)))))
     = [ArmDataGenerator 0 0 Incremental 8192 0, SetLoopbackOn, StartDataGenerator 0,
        StopDataGenerator, StopDataReceiver]"
proof -
  have hook: "deviceStopDma exampleConfig healthyCard runningChannel
      = (Inr (), runningChannel\<lparr>cardLog := [ArmDataGenerator 0 0 Incremental 8192 0, SetLoopbackOn,
           StartDataGenerator 0, StopDataGenerator, StopDataReceiver]\<rparr>)"
    by (simp add: deviceStopDma_def exampleConfig_def healthyCard_def runningChannel_def
        andThen_def startDataGenerator_def dataGeneratorCalls_def card_def Let_def
        mGeneratorInitialValue_def mGeneratorInitialWord_def mGeneratorSeed_def
        mGeneratorMaximumEvents_def)
  have first: "cardLog (device (snd (stopDma exampleConfig healthyCard runningPublicChannel)))
     = [ArmDataGenerator 0 0 Incremental 8192 0, SetLoopbackOn, StartDataGenerator 0,
        StopDataGenerator, StopDataReceiver]"
    by (simp add: stopDma_def runningPublicChannel_def hook)
  from stopDma_idempotent [of exampleConfig healthyCard healthyCard runningPublicChannel]
  show ?thesis
    using first by simp
qed

section \<open>Verification: the ring stays within its budget\<close>

lemma andThen_InrE:
  assumes "andThen m f s = (Inr r, s')"
  obtains a s1 where "m s = (Inr a, s1)" and "f a s1 = (Inr r, s')"
  using assms by (auto simp: andThen_def split: prod.splits sum.splits)

lemma andThen_cases:
  assumes "andThen m f s = (r, s')"
  obtains (first) e where "m s = (Inl e, s')" and "r = Inl e"
    | (second) a s1 where "m s = (Inr a, s1)" and "f a s1 = (r, s')"
  using assms by (auto simp: andThen_def split: prod.splits sum.splits)



























section \<open>Verification: the deferred start\<close>

lemma quiet_resetCalls: "filter isPush (resetCalls cfg level diu) = []"
  by (simp add: resetCalls_def)

lemma quiet_dataReceivingCalls: "filter isPush (dataReceivingCalls cfg diu) = []"
  by (simp add: dataReceivingCalls_def quiet_resetCalls)

lemma quiet_dataGeneratorCalls: "filter isPush (dataGeneratorCalls cfg diu) = []"
  by (simp add: dataGeneratorCalls_def)

lemma deviceResetChannel_ok:
  assumes "\<forall>log. \<not> cardFails hw log"
  shows "deviceResetChannel cfg hw level s =
     (Inr (), s\<lparr>cardLog := cardLog s @ resetCalls cfg level (mDiuConfig s)\<rparr>)"
  by (simp add: deviceResetChannel_def resetCalls_def cards_ok [OF assms])

lemma startDataReceiving_ok:
  assumes "\<forall>log. \<not> cardFails hw log"
  shows "startDataReceiving cfg hw s =
     (Inr (), s\<lparr>cardLog := cardLog s @ dataReceivingCalls cfg (mDiuConfig s)\<rparr>)"
  by (simp add: startDataReceiving_def dataReceivingCalls_def andThen_def assign_def
      card_ok assms deviceResetChannel_ok [OF assms] cards_ok [OF assms])

lemma startDataGenerator_ok:
  assumes "\<forall>log. \<not> cardFails hw log"
  shows "startDataGenerator cfg hw s =
     (Inr (), s\<lparr>cardLog := cardLog s @ dataGeneratorCalls cfg (mDiuConfig s)\<rparr>)"
  by (simp add: startDataGenerator_def cards_ok [OF assms])

lemma afterPushes_readyFifo:
  "afterPushes cfg i n (s\<lparr>readyFifo := f\<rparr>) = (afterPushes cfg i n s)\<lparr>readyFifo := f\<rparr>"
  by (simp add: afterPushes_def updEntry_def entryAt_def)

lemma primeFifo_ok:
  assumes nofail: "\<forall>log. \<not> cardFails hw log"
    and i: "i < length (entries (mSuperpageQueue s))"
    and bk: "0 \<le> mFifoBack s" and sz: "0 \<le> mFifoSize s"
    and pushed: "0 \<le> pushedPages (entryAt s i)"
    and room: "assertsEnabled cfg \<and> 0 < n \<longrightarrow>
        mFifoSize s + int n \<le> FIFO_QUEUE_MAX cfg \<and>
        pushedPages (entryAt s i) + int n \<le> maxPages (entryAt s i)"
  shows "primeFifo cfg hw i n index s =
     (Inr (), (afterPushes cfg i n s)
        \<lparr>readyFifo := (\<lambda>j. if index \<le> j \<and> j < index + int n then resetEntry else readyFifo s j)\<rparr>)"
  using i bk sz pushed room
proof (induction n arbitrary: s index)
  case 0
  have "(\<lambda>j. if index \<le> j \<and> j < index then resetEntry else readyFifo s j) = readyFifo s"
    by (rule ext) auto
  then show ?case
    by (simp add: afterPushes_0)
next
  case (Suc n)
  let ?s0 = "resetDescriptor index s"
  have s0: "?s0 = s\<lparr>readyFifo := (readyFifo s)(index := resetEntry)\<rparr>"
    by (simp add: resetDescriptor_def)
  have E0: "entryAt ?s0 i = entryAt s i"
    by (simp add: s0 entryAt_def)
  have one: "pushIntoSuperpage cfg hw i ?s0 = (Inr (), afterPushes cfg i 1 ?s0)"
    using Suc.prems by (intro pushIntoSuperpage_ok nofail) (auto simp: s0 entryAt_def)
  let ?s1 = "afterPushes cfg i 1 ?s0"
  have E1: "entryAt ?s1 i = (entryAt s i)\<lparr>pushedPages := pushedPages (entryAt s i) + 1\<rparr>"
    using Suc.prems(1) by (simp add: afterPushes_fields entryAt_def s0)
  have "primeFifo cfg hw i n (index + 1) ?s1 =
     (Inr (), (afterPushes cfg i n ?s1)
        \<lparr>readyFifo := (\<lambda>j. if index + 1 \<le> j \<and> j < index + 1 + int n then resetEntry else readyFifo ?s1 j)\<rparr>)"
  proof (rule Suc.IH)
    show "i < length (entries (mSuperpageQueue ?s1))"
      using Suc.prems(1) by (simp add: afterPushes_fields s0)
    show "0 \<le> mFifoBack ?s1"
      using Suc.prems(2) by (simp add: afterPushes_fields s0)
    show "0 \<le> mFifoSize ?s1"
      using Suc.prems(3) by (simp add: afterPushes_fields s0)
    show "0 \<le> pushedPages (entryAt ?s1 i)"
      using Suc.prems(4) by (simp only: E1) simp
    show "assertsEnabled cfg \<and> 0 < n \<longrightarrow>
        mFifoSize ?s1 + int n \<le> FIFO_QUEUE_MAX cfg \<and>
        pushedPages (entryAt ?s1 i) + int n \<le> maxPages (entryAt ?s1 i)"
      using Suc.prems(5) by (simp only: E1 afterPushes_fields) (simp add: add.assoc s0)
  qed
  then have run: "primeFifo cfg hw i (Suc n) index s =
     (Inr (), (afterPushes cfg i n ?s1)
        \<lparr>readyFifo := (\<lambda>j. if index + 1 \<le> j \<and> j < index + 1 + int n then resetEntry else readyFifo ?s1 j)\<rparr>)"
    by (simp add: one)
  have pushes: "afterPushes cfg i n ?s1 = (afterPushes cfg i (Suc n) s)\<lparr>readyFifo := (readyFifo s)(index := resetEntry)\<rparr>"
    using Suc.prems(1,4)
    by (simp only: s0 afterPushes_readyFifo afterPushes_afterPushes) simp
  have fifo: "(\<lambda>j. if index + 1 \<le> j \<and> j < index + 1 + int n then resetEntry else readyFifo ?s1 j)
      = (\<lambda>j. if index \<le> j \<and> j < index + int (Suc n) then resetEntry else readyFifo s j)"
    by (rule ext) (auto simp: afterPushes_fields s0)
  show ?case
    by (simp only: run pushes fifo) simp
qed

lemma dataArrived_accepts:
  assumes "entry_status (readyFifo s index) = - 1 \<or> entry_status (readyFifo s index) = 0
      \<or> (entry_status (readyFifo s index) AND 0xff = DTSW
          \<and> entry_status (readyFifo s index) AND push_bit 31 1 = 0)"
  shows "(case dataArrived s index of Inl e \<Rightarrow> Inl e | Inr arrival \<Rightarrow> Inr ()) = Inr ()"
  using assms
  by (auto simp: dataArrived_none dataArrived_part dataArrived_whole)

lemma startPendingDma_primes:
  assumes nofail: "\<forall>log. \<not> cardFails hw log"
    and arrival: "\<forall>fifo. entry_status (afterWait hw fifo 127) = - 1
        \<or> entry_status (afterWait hw fifo 127) = 0
        \<or> (entry_status (afterWait hw fifo 127) AND 0xff = DTSW
            \<and> entry_status (afterWait hw fifo 127) AND push_bit 31 1 = 0)"
    and pending: "mPendingDmaStart s"
    and queue: "mSuperpageQueue s = \<lparr>entries = [E], nFilled = 0, nArrivals = 0\<rparr>"
    and ring: "mFifoBack s = 0" "mFifoSize s = 0"
    and budget: "FIFO_QUEUE_MAX cfg = 128"
    and E: "pushedPages E = 0" "maxPages E = 128" "received (superpage E) = 0"
      "size_sp (superpage E) = 128 * mPageSize cfg"
    and s'_def: "s' = snd (startPendingDma cfg hw 0 s)"
  shows "fst (startPendingDma cfg hw 0 s) = Inr ()"
    and "cardLog s' = cardLog s @
                 ((if mUseContinuousReadout cfg then [InitReadoutContinuous] else []) @
                  [InitDiuVersion] @ resetCalls cfg mInitialResetLevel (diuVersion hw) @
                  dataReceivingCalls cfg (diuVersion hw)) @
                 map (descriptorPush cfg E 0 0) [0..<128] @
                 ((if mGeneratorEnabled cfg then dataGeneratorCalls cfg (diuVersion hw) else []) @
                  (if mUseContinuousReadout cfg then [StartReadoutContinuous] else []))"
    and "mSuperpageQueue s' =
                 \<lparr>entries = [E\<lparr>pushedPages := 128,
                               superpage := (superpage E)\<lparr>received := 128 * mPageSize cfg, ready := True\<rparr>\<rparr>],
                  nFilled = 1, nArrivals = 0\<rparr>"
    and "mFifoBack s' = 0" and "mFifoSize s' = 0" and "\<not> mPendingDmaStart s'"
    and "readyFifo s' = (\<lambda>index. resetEntry)" and "bufferWrites s' = bufferWrites s"
    and "mDiuConfig s' = diuVersion hw"
proof -
  have prime: "primeFifo cfg hw 0 128 0 t =
      (Inr (), (afterPushes cfg 0 128 t)
        \<lparr>readyFifo := (\<lambda>j. if 0 \<le> j \<and> j < 0 + int 128 then resetEntry else readyFifo t j)\<rparr>)"
    if "mSuperpageQueue t = \<lparr>entries = [E], nFilled = 0, nArrivals = 0\<rparr>"
      and "mFifoBack t = 0" and "mFifoSize t = 0" for t
    by (rule primeFifo_ok [OF nofail]) (simp_all add: that E budget entryAt_def)
  have check: "(case dataArrived t 127 of Inl e \<Rightarrow> Inl e | Inr arrival \<Rightarrow> Inr ()) = Inr ()"
    if "readyFifo t = afterWait hw fifo" for t fifo
    by (rule dataArrived_accepts) (use arrival that in simp)
  note exec = startPendingDma_def pending andThen_def assign_def assert_def card_ok nofail
        deviceResetChannel_ok startDataReceiving_ok startDataGenerator_ok READYFIFO_ENTRIES_def
        prime queue ring mNoRDYRX_def afterPushes_def entryAt_def updEntry_def E
        onQueue_def removeFromPushingQueue_def moveFromArrivalsToFilledQueue_def
        getPushing_def getArrivals_def check resetReadyFifo_def
  show "fst (startPendingDma cfg hw 0 s) = Inr ()"
    by (simp add: exec)
  show "cardLog s' = cardLog s @
                 ((if mUseContinuousReadout cfg then [InitReadoutContinuous] else []) @
                  [InitDiuVersion] @ resetCalls cfg mInitialResetLevel (diuVersion hw) @
                  dataReceivingCalls cfg (diuVersion hw)) @
                 map (descriptorPush cfg E 0 0) [0..<128] @
                 ((if mGeneratorEnabled cfg then dataGeneratorCalls cfg (diuVersion hw) else []) @
                  (if mUseContinuousReadout cfg then [StartReadoutContinuous] else []))"
    unfolding s'_def by (simp add: exec)
  show "mSuperpageQueue s' =
                 \<lparr>entries = [E\<lparr>pushedPages := 128,
                               superpage := (superpage E)\<lparr>received := 128 * mPageSize cfg, ready := True\<rparr>\<rparr>],
                  nFilled = 1, nArrivals = 0\<rparr>"
    unfolding s'_def by (simp add: exec)
  show "mFifoBack s' = 0"
    unfolding s'_def by (simp add: exec)
  show "mFifoSize s' = 0"
    unfolding s'_def by (simp add: exec)
  show "\<not> mPendingDmaStart s'"
    unfolding s'_def by (simp add: exec)
  show "readyFifo s' = (\<lambda>index. resetEntry)"
    unfolding s'_def by (simp add: exec)
  show "bufferWrites s' = bufferWrites s"
    unfolding s'_def by (simp add: exec)
  show "mDiuConfig s' = diuVersion hw"
    unfolding s'_def by (simp add: exec)
qed

lemma filter_descriptorPushes:
  "filter isPush (map (descriptorPush cfg E b f) ks) = map (descriptorPush cfg E b f) ks"
  by (induction ks) (simp_all add: descriptorPush_def)

text \<open>
  Claim C1, as stated: the client pushes the 1 MiB superpage, then calls \<open>start_dma\<close>,
  then \<open>fill_superpages\<close>. \<open>deviceStartDma\<close> clears the superpage queue, so the tick
  finds nothing to push: no call reaches the card, and \<open>pop_superpage\<close> fails on the
  empty Filled queue.
\<close>

theorem cold_start_push_before_start:
  "cardLog (snd (fillSuperpages exampleConfig healthyCard
       (deviceStartDma (snd (pushSuperpage exampleConfig coldStartSuperpage idleChannel))))) = []
   \<and> fst (popSuperpage (snd (fillSuperpages exampleConfig healthyCard
       (deviceStartDma (snd (pushSuperpage exampleConfig coldStartSuperpage idleChannel))))))
     = Inl QueueEmptyError"
  by (simp add: pushSuperpage_def checkSuperpage_def coldStartSuperpage_def exampleConfig_def
      idleChannel_def isMultiple_def MIN_SIZE_def Let_def onQueue_def addToQueue_def
      getQueueAvailable_def getPushing_def getArrivals_def getFilled_def clear_def
      deviceStartDma_def fillSuperpages_def andThen_def pushPhase_def getPushingFrontEntry_def
      arrivalPhase_def popSuperpage_def removeFromFilledQueue_def)

lemma cold_start_run:
  assumes cfg: "mPageSize cfg = 8192" "FIFO_QUEUE_MAX cfg = 128" "1048576 \<le> bufferSize cfg"
      "0 < MAX_SUPERPAGES cfg"
    and nofail: "\<forall>log. \<not> cardFails hw log"
    and arrival: "\<forall>fifo. entry_status (afterWait hw fifo 127) = - 1
        \<or> entry_status (afterWait hw fifo 127) = 0
        \<or> (entry_status (afterWait hw fifo 127) AND 0xff = DTSW
            \<and> entry_status (afterWait hw fifo 127) AND push_bit 31 1 = 0)"
    and sp: "offset sp = 0" "size_sp sp = 1048576"
    and s2_def: "s2 = snd (pushSuperpage cfg sp (deviceStartDma s0))"
    and s3_def: "s3 = snd (fillSuperpages cfg hw s2)"
  shows "fst (pushSuperpage cfg sp (deviceStartDma s0)) = Inr ()"
    and "fst (fillSuperpages cfg hw s2) = Inr ()"
    and "filter isPush (cardLog s3) = filter isPush (cardLog s0) @
           map (\<lambda>k. PushRxFreeFifo (bufferBusAddress cfg + k * 8192) 2048 (int k)) [0..<128]"
    and "getFilled (mSuperpageQueue s3) =
           [\<lparr>superpage = \<lparr>offset = 0, size_sp = 1048576, received = 1048576, ready = True\<rparr>,
             busAddress = bufferBusAddress cfg, maxPages = 128, pushedPages = 128\<rparr>]"
    and "getArrivals (mSuperpageQueue s3) = []"
    and "getPushing (mSuperpageQueue s3) = []"
    and "mFifoSize s3 = 0" and "mFifoBack s3 = 0" and "\<not> mPendingDmaStart s3"
    and "fst (popSuperpage s3) =
           Inr \<lparr>offset = 0, size_sp = 1048576, received = 1048576, ready = True\<rparr>"
proof -
  define E where "E = \<lparr>superpage = sp\<lparr>received := 0\<rparr>, busAddress = bufferBusAddress cfg,
      maxPages = 128, pushedPages = 0\<rparr>"
  have push: "pushSuperpage cfg sp (deviceStartDma s0) =
      (Inr (), (deviceStartDma s0)\<lparr>mSuperpageQueue := \<lparr>entries = [E], nFilled = 0, nArrivals = 0\<rparr>\<rparr>)"
    using cfg sp
    by (simp add: pushSuperpage_def checkSuperpage_def isMultiple_def MIN_SIZE_def Let_def
        onQueue_def addToQueue_def getQueueAvailable_def getPushing_def getArrivals_def
        clear_def deviceStartDma_def getBusOffsetAddress_def E_def)
  show "fst (pushSuperpage cfg sp (deviceStartDma s0)) = Inr ()"
    by (simp add: push)
  have s2: "mPendingDmaStart s2" "mSuperpageQueue s2 = \<lparr>entries = [E], nFilled = 0, nArrivals = 0\<rparr>"
    "mFifoBack s2 = 0" "mFifoSize s2 = 0" "cardLog s2 = cardLog s0"
    unfolding s2_def push snd_conv by (simp_all add: deviceStartDma_def)
  have Ef: "pushedPages E = 0" "maxPages E = 128" "received (superpage E) = 0"
    "size_sp (superpage E) = 128 * mPageSize cfg"
    by (simp_all add: E_def sp cfg)
  note start = startPendingDma_primes [OF nofail arrival s2(1,2,3,4) cfg(2) Ef refl]
  have phase: "pushPhase cfg hw s2 = startPendingDma cfg hw 0 s2"
    by (simp add: pushPhase_def getPushingFrontEntry_def getPushing_def s2)
  obtain r t where run: "startPendingDma cfg hw 0 s2 = (r, t)"
    by (cases "startPendingDma cfg hw 0 s2")
  have r: "r = Inr ()" and t: "t = snd (startPendingDma cfg hw 0 s2)"
    using start(1) by (simp_all add: run)
  have fill: "fillSuperpages cfg hw s2 = (Inr (), t)"
    using start(3)
    by (simp add: fillSuperpages_def andThen_def phase run r arrivalPhase_def
        getArrivals_def t [symmetric])
  show "fst (fillSuperpages cfg hw s2) = Inr ()"
    by (simp add: fill)
  have s3: "s3 = snd (startPendingDma cfg hw 0 s2)"
    by (simp add: s3_def fill t)
  have E': "E\<lparr>pushedPages := 128,
        superpage := (superpage E)\<lparr>received := 128 * mPageSize cfg, ready := True\<rparr>\<rparr>
      = \<lparr>superpage = \<lparr>offset = 0, size_sp = 1048576, received = 1048576, ready = True\<rparr>,
          busAddress = bufferBusAddress cfg, maxPages = 128, pushedPages = 128\<rparr>"
    using sp cfg by (cases sp) (simp add: E_def)
  have q3: "mSuperpageQueue s3 =
      \<lparr>entries = [\<lparr>superpage = \<lparr>offset = 0, size_sp = 1048576, received = 1048576, ready = True\<rparr>,
             busAddress = bufferBusAddress cfg, maxPages = 128, pushedPages = 128\<rparr>],
       nFilled = 1, nArrivals = 0\<rparr>"
    using start(3) by (simp only: s3 [symmetric] E')
  show "getFilled (mSuperpageQueue s3) =
           [\<lparr>superpage = \<lparr>offset = 0, size_sp = 1048576, received = 1048576, ready = True\<rparr>,
             busAddress = bufferBusAddress cfg, maxPages = 128, pushedPages = 128\<rparr>]"
    by (simp add: q3 getFilled_def)
  show "getArrivals (mSuperpageQueue s3) = []"
    by (simp add: q3 getArrivals_def)
  show "getPushing (mSuperpageQueue s3) = []"
    by (simp add: q3 getPushing_def)
  show "mFifoSize s3 = 0" "mFifoBack s3 = 0" "\<not> mPendingDmaStart s3"
    using start(4,5,6) by (simp_all only: s3 [symmetric] simp_thms)
  show "fst (popSuperpage s3) =
           Inr \<lparr>offset = 0, size_sp = 1048576, received = 1048576, ready = True\<rparr>"
    by (simp add: popSuperpage_def removeFromFilledQueue_def getFilled_def q3)
  have pushes: "map (descriptorPush cfg E 0 0) [0..<128] =
      map (\<lambda>k. PushRxFreeFifo (bufferBusAddress cfg + k * 8192) 2048 (int k)) [0..<128]"
    by (rule map_cong) (simp_all add: descriptorPush_def E_def cfg)
  have "filter isPush (cardLog s3) = filter isPush (cardLog s0) @ map (descriptorPush cfg E 0 0) [0..<128]"
    using start(2)
    by (simp only: s3 [symmetric])
      (simp add: s2 quiet_resetCalls quiet_dataReceivingCalls quiet_dataGeneratorCalls
        filter_descriptorPushes)
  then show "filter isPush (cardLog s3) = filter isPush (cardLog s0) @
           map (\<lambda>k. PushRxFreeFifo (bufferBusAddress cfg + k * 8192) 2048 (int k)) [0..<128]"
    by (simp only: pushes)
qed

text \<open>
  Claim C1, amended. Page size 8192, ring budget 128, a buffer of at least 1 MiB. The
  client calls \<open>start_dma\<close>, then pushes the superpage \<open>{offset = 0, size = 1 MiB}\<close>,
  then calls \<open>fill_superpages\<close>; no card call fails, and after the fixed wait the card
  reports in slot 127 either nothing, a partial page or a whole page without the error
  bit. Then the push is accepted, the tick returns normally and has primed exactly 128
  descriptors, all from that superpage (page \<open>k\<close> at bus address
  \<open>buffer_base_bus + k * 8192\<close>, 2048 words, ring slot \<open>k\<close>); the superpage's
  \<open>received\<close> is \<open>128 * 8192 = 1048576\<close>, its entry is the only one in Filled, and
  Arrivals and Pushing are empty; the ring is empty again and no start is pending; and
  \<open>pop_superpage\<close> returns \<open>{offset = 0, size = 1 MiB, received = 1 MiB, ready = true}\<close>.
\<close>

theorem cold_start_after_start_dma:
  assumes "mPageSize cfg = 8192" and "FIFO_QUEUE_MAX cfg = 128" and "1048576 \<le> bufferSize cfg"
    and "0 < MAX_SUPERPAGES cfg"
    and "\<forall>log. \<not> cardFails hw log"
    and "\<forall>fifo. entry_status (afterWait hw fifo 127) = - 1
        \<or> entry_status (afterWait hw fifo 127) = 0
        \<or> (entry_status (afterWait hw fifo 127) AND 0xff = DTSW
            \<and> entry_status (afterWait hw fifo 127) AND push_bit 31 1 = 0)"
    and "offset sp = 0" and "size_sp sp = 1048576"
  shows "let s2 = snd (pushSuperpage cfg sp (deviceStartDma s0));
             s3 = snd (fillSuperpages cfg hw s2)
         in fst (pushSuperpage cfg sp (deviceStartDma s0)) = Inr ()
          \<and> fst (fillSuperpages cfg hw s2) = Inr ()
          \<and> filter isPush (cardLog s3) = filter isPush (cardLog s0) @
               map (\<lambda>k. PushRxFreeFifo (bufferBusAddress cfg + k * 8192) 2048 (int k)) [0..<128]
          \<and> getFilled (mSuperpageQueue s3) =
               [\<lparr>superpage = \<lparr>offset = 0, size_sp = 1048576, received = 1048576, ready = True\<rparr>,
                 busAddress = bufferBusAddress cfg, maxPages = 128, pushedPages = 128\<rparr>]
          \<and> getArrivals (mSuperpageQueue s3) = []
          \<and> getPushing (mSuperpageQueue s3) = []
          \<and> mFifoSize s3 = 0 \<and> mFifoBack s3 = 0 \<and> \<not> mPendingDmaStart s3
          \<and> fst (popSuperpage s3) =
               Inr \<lparr>offset = 0, size_sp = 1048576, received = 1048576, ready = True\<rparr>"
  unfolding Let_def
  by (intro conjI cold_start_run [OF assms refl refl])

theorem cold_start_after_start_dma_witness:
  "mPageSize exampleConfig = 8192 \<and> FIFO_QUEUE_MAX exampleConfig = 128
   \<and> 1048576 \<le> bufferSize exampleConfig \<and> 0 < MAX_SUPERPAGES exampleConfig
   \<and> (\<forall>log. \<not> cardFails healthyCard log)
   \<and> (\<forall>fifo. entry_status (afterWait healthyCard fifo 127) AND 0xff = DTSW
            \<and> entry_status (afterWait healthyCard fifo 127) AND push_bit 31 1 = 0)
   \<and> offset coldStartSuperpage = 0 \<and> size_sp coldStartSuperpage = 1048576
   \<and> fst (fillSuperpages exampleConfig healthyCard
        (snd (pushSuperpage exampleConfig coldStartSuperpage (deviceStartDma idleChannel)))) = Inr ()
   \<and> fst (popSuperpage (snd (fillSuperpages exampleConfig healthyCard
        (snd (pushSuperpage exampleConfig coldStartSuperpage (deviceStartDma idleChannel))))))
      = Inr \<lparr>offset = 0, size_sp = 1048576, received = 1048576, ready = True\<rparr>"
proof -
  have c: "mPageSize exampleConfig = 8192" "FIFO_QUEUE_MAX exampleConfig = 128"
    "1048576 \<le> bufferSize exampleConfig" "0 < MAX_SUPERPAGES exampleConfig"
    by (simp_all add: exampleConfig_def)
  have ok: "\<forall>log. \<not> cardFails healthyCard log"
    by (simp add: healthyCard_def)
  have whole: "\<forall>fifo. entry_status (afterWait healthyCard fifo 127) AND 0xff = DTSW
            \<and> entry_status (afterWait healthyCard fifo 127) AND push_bit 31 1 = 0"
    by (simp add: healthyCard_def DTSW_def)
  then have arrival: "\<forall>fifo. entry_status (afterWait healthyCard fifo 127) = - 1
        \<or> entry_status (afterWait healthyCard fifo 127) = 0
        \<or> (entry_status (afterWait healthyCard fifo 127) AND 0xff = DTSW
            \<and> entry_status (afterWait healthyCard fifo 127) AND push_bit 31 1 = 0)"
    by blast
  have sp: "offset coldStartSuperpage = 0" "size_sp coldStartSuperpage = 1048576"
    by (simp_all add: coldStartSuperpage_def)
  from cold_start_after_start_dma [OF c ok arrival sp, of idleChannel]
  show ?thesis
    using c ok whole sp by (simp add: Let_def)
qed




section \<open>Verification: what a push stores and what a pop returns\<close>

text \<open>What a step leaves alone when it writes to the entry at position \<open>i\<close> at most.\<close>

lemma pushIntoSuperpage_frame:
  assumes "pushIntoSuperpage cfg hw i s = (r, t)"
  shows "nFilled (mSuperpageQueue t) = nFilled (mSuperpageQueue s)
       \<and> nArrivals (mSuperpageQueue t) = nArrivals (mSuperpageQueue s)
       \<and> mPendingDmaStart t = mPendingDmaStart s \<and> mFifoBack t = mFifoBack s
       \<and> (\<exists>e. entries (mSuperpageQueue t) = (entries (mSuperpageQueue s))[i := e])"
proof -
  have same: "\<exists>e. xs = xs[i := e]" for xs :: "SuperpageQueueEntry list"
    by (rule exI [of _ "xs ! i"]) simp
  from assms show ?thesis
    by (auto simp: pushIntoSuperpage_def andThen_def assert_def assign_def pushFreeFifoPage_def
        card_def Let_def updEntry_def same split: if_splits)
qed

lemma pushLoop_frame:
  "pushLoop cfg hw i n s = (r, t) \<Longrightarrow>
     nFilled (mSuperpageQueue t) = nFilled (mSuperpageQueue s)
   \<and> nArrivals (mSuperpageQueue t) = nArrivals (mSuperpageQueue s)
   \<and> mPendingDmaStart t = mPendingDmaStart s \<and> mFifoBack t = mFifoBack s
   \<and> (\<exists>e. entries (mSuperpageQueue t) = (entries (mSuperpageQueue s))[i := e])"
proof (induction n arbitrary: s)
  case 0
  have "\<exists>e. entries (mSuperpageQueue s) = (entries (mSuperpageQueue s))[i := e]"
    by (rule exI [of _ "entries (mSuperpageQueue s) ! i"]) simp
  with 0 show ?case by auto
next
  case (Suc n)
  obtain r1 s1 where one: "pushIntoSuperpage cfg hw i s = (r1, s1)"
    by (cases "pushIntoSuperpage cfg hw i s")
  note f1 = pushIntoSuperpage_frame [OF one]
  show ?case
  proof (cases r1)
    case (Inl e)
    with Suc.prems one f1 show ?thesis by auto
  next
    case (Inr u)
    with Suc.prems one have "pushLoop cfg hw i n s1 = (r, t)"
      by simp
    from Suc.IH [OF this] f1 show ?thesis
      by (auto simp: list_update_overwrite)
  qed
qed

lemma primeFifo_frame:
  "primeFifo cfg hw i n index s = (r, t) \<Longrightarrow>
     nFilled (mSuperpageQueue t) = nFilled (mSuperpageQueue s)
   \<and> nArrivals (mSuperpageQueue t) = nArrivals (mSuperpageQueue s)
   \<and> mPendingDmaStart t = mPendingDmaStart s \<and> mFifoBack t = mFifoBack s
   \<and> (\<exists>e. entries (mSuperpageQueue t) = (entries (mSuperpageQueue s))[i := e])"
proof (induction n arbitrary: s index)
  case 0
  have "\<exists>e. entries (mSuperpageQueue s) = (entries (mSuperpageQueue s))[i := e]"
    by (rule exI [of _ "entries (mSuperpageQueue s) ! i"]) simp
  with 0 show ?case by auto
next
  case (Suc n)
  obtain r1 s1 where one: "pushIntoSuperpage cfg hw i (resetDescriptor index s) = (r1, s1)"
    by (cases "pushIntoSuperpage cfg hw i (resetDescriptor index s)")
  have f1: "nFilled (mSuperpageQueue s1) = nFilled (mSuperpageQueue s)
       \<and> nArrivals (mSuperpageQueue s1) = nArrivals (mSuperpageQueue s)
       \<and> mPendingDmaStart s1 = mPendingDmaStart s \<and> mFifoBack s1 = mFifoBack s
       \<and> (\<exists>e. entries (mSuperpageQueue s1) = (entries (mSuperpageQueue s))[i := e])"
    using pushIntoSuperpage_frame [OF one] by (simp add: resetDescriptor_def)
  show ?case
  proof (cases r1)
    case (Inl e)
    with Suc.prems one f1 show ?thesis by auto
  next
    case (Inr u)
    with Suc.prems one have "primeFifo cfg hw i n (index + 1) s1 = (r, t)"
      by simp
    from Suc.IH [OF this] f1 show ?thesis
      by (auto simp: list_update_overwrite)
  qed
qed

text \<open>Card calls leave the queue, the pending flag and the ring indices alone.\<close>

lemma cards_keeps:
  assumes "cards hw cs s = (r, t)"
  shows "mSuperpageQueue t = mSuperpageQueue s \<and> mPendingDmaStart t = mPendingDmaStart s
    \<and> mFifoBack t = mFifoBack s"
proof -
  from cards_only_log [OF assms] obtain l where "t = s\<lparr>cardLog := l\<rparr>"
    by blast
  then show ?thesis
    by simp
qed

lemma card_keeps:
  assumes "card hw c s = (r, t)"
  shows "mSuperpageQueue t = mSuperpageQueue s \<and> mPendingDmaStart t = mPendingDmaStart s
    \<and> mFifoBack t = mFifoBack s"
  using assms by (auto simp: card_def Let_def split: if_splits)

lemma deviceResetChannel_keeps:
  assumes "deviceResetChannel cfg hw level s = (r, t)"
  shows "mSuperpageQueue t = mSuperpageQueue s \<and> mPendingDmaStart t = mPendingDmaStart s
    \<and> mFifoBack t = mFifoBack s"
proof (cases "level = RL_Nothing")
  case True
  with assms show ?thesis by (simp add: deviceResetChannel_def)
next
  case False
  from assms show ?thesis
    unfolding deviceResetChannel_def by (simp only: False if_False) (erule cards_keeps)
qed

lemma startDataGenerator_keeps:
  assumes "startDataGenerator cfg hw s = (r, t)"
  shows "mSuperpageQueue t = mSuperpageQueue s \<and> mPendingDmaStart t = mPendingDmaStart s
    \<and> mFifoBack t = mFifoBack s"
  using assms unfolding startDataGenerator_def by (rule cards_keeps)

lemma startDataReceiving_keeps:
  assumes "startDataReceiving cfg hw s = (r, t)"
  shows "mSuperpageQueue t = mSuperpageQueue s \<and> mPendingDmaStart t = mPendingDmaStart s
    \<and> mFifoBack t = mFifoBack s"
  using assms unfolding startDataReceiving_def
  by (auto simp: assign_def simp del: cards.simps elim!: andThen_cases
      dest!: card_keeps cards_keeps deviceResetChannel_keeps split: if_splits)


lemma startPendingDma_filledComplete:
  assumes run: "startPendingDma cfg hw i s = (Inr r, s')"
    and inv: "filledComplete s"
    and pending: "mPendingDmaStart s"
    and front: "getPushingFrontEntry (mSuperpageQueue s) = Some i"
  shows "filledComplete s'"
proof -
  from inv pending have z: "nFilled (mSuperpageQueue s) = 0" "nArrivals (mSuperpageQueue s) = 0"
    by (simp_all add: filledComplete_def)
  with front have i: "i = 0" and ne: "entries (mSuperpageQueue s) \<noteq> []"
    by (auto simp: getPushingFrontEntry_def getPushing_def split: if_splits)
  from run pending have
    "(andThen (if mUseContinuousReadout cfg then card hw InitReadoutContinuous else assign id) (\<lambda>_.
        andThen (card hw InitDiuVersion) (\<lambda>_.
        andThen (assign (\<lambda>s. s\<lparr>mDiuConfig := diuVersion hw\<rparr>)) (\<lambda>_.
        andThen (deviceResetChannel cfg hw mInitialResetLevel) (\<lambda>_.
        andThen (startDataReceiving cfg hw) (\<lambda>_.
        andThen (primeFifo cfg hw i (nat READYFIFO_ENTRIES) 0) (\<lambda>_.
        andThen (\<lambda>s. assert cfg (pushedPages (entryAt s i) \<le> maxPages (entryAt s i)) s) (\<lambda>_.
        andThen (\<lambda>s. if pushedPages (entryAt s i) = maxPages (entryAt s i)
                      then onQueue removeFromPushingQueue s else (Inr (), s)) (\<lambda>_.
        andThen (if mGeneratorEnabled cfg then startDataGenerator cfg hw
                 else if \<not> mNoRDYRX
                 then (\<lambda>s. cards hw [AssertLinkUp, SiuCommand RandCIFST, DiuCommand RandCIFST,
                                      StartTrigger (mDiuConfig s)] s)
                 else assign id) (\<lambda>_.
        andThen (assign (\<lambda>s. s\<lparr>readyFifo := afterWait hw (readyFifo s)\<rparr>)) (\<lambda>_.
        andThen (\<lambda>s. (case dataArrived s (READYFIFO_ENTRIES - 1) of
                         Inl e \<Rightarrow> Inl e | Inr _ \<Rightarrow> Inr (), s)) (\<lambda>_.
        andThen (assign (updEntry i (\<lambda>e. e\<lparr>superpage := (superpage e)
                   \<lparr>received := received (superpage e) + nat READYFIFO_ENTRIES * mPageSize cfg\<rparr>\<rparr>))) (\<lambda>_.
        andThen (\<lambda>s. if received (superpage (entryAt s i)) = size_sp (superpage (entryAt s i))
                      then andThen (assign (updEntry i (\<lambda>e. e\<lparr>superpage := (superpage e)\<lparr>ready := True\<rparr>\<rparr>)))
                             (\<lambda>_. onQueue moveFromArrivalsToFilledQueue) s
                      else (Inr (), s)) (\<lambda>_.
        andThen (assign (\<lambda>s. (resetReadyFifo s)\<lparr>mFifoBack := 0, mFifoSize := 0,
                                                 mPendingDmaStart := False\<rparr>)) (\<lambda>_.
        (if mUseContinuousReadout cfg then card hw StartReadoutContinuous else assign id)
        ))))))))))))))) s = (Inr r, s')"
    by (simp add: startPendingDma_def)
  then show ?thesis
    using z ne unfolding i
  proof (elim andThen_InrE, goal_cases)
    case (1 a1 s1 a2 s2 a3 s3 a4 s4 a5 s5 a6 s6 a7 s7 a8 s8 a9 s9 a10 s10 a11 s11 a12 s12
        a13 s13 a14 s14)
    let ?q = mSuperpageQueue
    let ?L = "length (entries (?q s))"
    have "?q s1 = ?q s"
      using 1(4) by (auto simp: assign_def dest: card_keeps split: if_splits)
    moreover have "?q s2 = ?q s1"
      using 1(5) by (auto dest: card_keeps)
    moreover have "?q s3 = ?q s2"
      using 1(6) by (auto simp: assign_def)
    moreover have "?q s4 = ?q s3"
      using 1(7) by (auto dest: deviceResetChannel_keeps)
    moreover have "?q s5 = ?q s4"
      using 1(8) by (auto dest: startDataReceiving_keeps)
    ultimately have q5: "?q s5 = ?q s"
      by simp
    from primeFifo_frame [OF 1(9)] q5 1(1,2)
    have q6: "nFilled (?q s6) = 0" "nArrivals (?q s6) = 0" "length (entries (?q s6)) = ?L"
      by auto
    have "s7 = s6"
      using 1(10) by (auto simp: assert_def split: if_splits)
    with q6 have q7: "nFilled (?q s7) = 0" "nArrivals (?q s7) = 0"
      "length (entries (?q s7)) = ?L"
      by simp_all
    have q8: "nFilled (?q s8) = 0" "nArrivals (?q s8) \<le> 1" "length (entries (?q s8)) = ?L"
      using 1(11) q7
      by (auto simp: onQueue_def removeFromPushingQueue_def split: if_splits sum.splits)
    have "?q s9 = ?q s8"
      using 1(12)
      by (auto simp: assign_def mNoRDYRX_def simp del: cards.simps
          dest: startDataGenerator_keeps cards_keeps split: if_splits)
    moreover have "?q s10 = ?q s9"
      using 1(13) by (auto simp: assign_def)
    moreover have "s11 = s10"
      using 1(14) by (auto split: sum.splits)
    ultimately have q11: "?q s11 = ?q s8"
      by simp
    have q12: "nFilled (?q s12) = 0" "nArrivals (?q s12) \<le> 1"
      "length (entries (?q s12)) = ?L"
      using 1(15) q11 q8 by (auto simp: assign_def updEntry_def)
    have q13: "length (entries (?q s13)) = ?L
      \<and> (nFilled (?q s13) = 0 \<and> nArrivals (?q s13) \<le> 1
         \<or> nFilled (?q s13) = 1 \<and> nArrivals (?q s13) = 0
           \<and> ready (superpage (entries (?q s13) ! 0))
           \<and> received (superpage (entries (?q s13) ! 0))
               = size_sp (superpage (entries (?q s13) ! 0)))"
    proof (cases "received (superpage (entryAt s12 0)) = size_sp (superpage (entryAt s12 0))")
      case False
      with 1(16) have "s13 = s12"
        by simp
      with q12 show ?thesis
        by simp
    next
      case True
      with 1(16) have "andThen (assign (updEntry 0 (\<lambda>e. e\<lparr>superpage := (superpage e)\<lparr>ready := True\<rparr>\<rparr>)))
          (\<lambda>_. onQueue moveFromArrivalsToFilledQueue) s12 = (Inr a13, s13)"
        by simp
      then have "onQueue moveFromArrivalsToFilledQueue
          (updEntry 0 (\<lambda>e. e\<lparr>superpage := (superpage e)\<lparr>ready := True\<rparr>\<rparr>) s12) = (Inr a13, s13)"
        by (simp add: andThen_def assign_def)
      with q12 True 1(3) show ?thesis
        by (auto simp: onQueue_def moveFromArrivalsToFilledQueue_def updEntry_def entryAt_def
            getArrivals_def split: if_splits sum.splits)
    qed
    have q14: "?q s14 = ?q s13" "\<not> mPendingDmaStart s14" "mFifoBack s14 = 0"
      using 1(17) by (auto simp: assign_def resetReadyFifo_def)
    have "?q s' = ?q s14 \<and> mPendingDmaStart s' = mPendingDmaStart s14 \<and> mFifoBack s' = mFifoBack s14"
      using 1(18) by (auto simp: assign_def dest: card_keeps split: if_splits)
    with q14 q13 1(3) show ?case
      by (cases "entries (?q s13)") (auto simp: filledComplete_def getFilled_def)
  qed
qed


lemma take_Suc_update:
  "n < length xs \<Longrightarrow> take (Suc n) (xs[n := e]) = take n xs @ [e]"
  by (simp add: take_Suc_conv_app_nth)

lemma arrivalBody_filledComplete:
  assumes run: "arrivalBody cfg s = (r, s')" and inv: "filledComplete s"
  shows "filledComplete s'"
proof (cases "getArrivalsFrontEntry (mSuperpageQueue s)")
  case None
  with run inv show ?thesis
    by (simp add: arrivalBody_def)
next
  case (Some i)
  let ?q = "mSuperpageQueue s"
  from Some have i: "i = nFilled ?q" and lt: "nFilled ?q < length (entries ?q)"
    and pos: "0 < nArrivals ?q"
    by (auto simp: getArrivalsFrontEntry_def getArrivals_def split: if_splits)
  show ?thesis
  proof (cases "dataArrived s (mFifoBack s) = Inr WholeArrived")
    case False
    with run Some have "s' = s"
      by (auto simp: arrivalBody_def split: sum.splits if_splits)
    with inv show ?thesis
      by simp
  next
    case True
    let ?e = "(entries ?q ! i)\<lparr>superpage := (superpage (entries ?q ! i))
        \<lparr>received := received (superpage (entries ?q ! i)) + mPageSize cfg\<rparr>\<rparr>"
    from inv have bk: "0 \<le> mFifoBack s"
      by (simp add: filledComplete_def)
    then have bk': "0 \<le> (mFifoBack s + 1) smod READYFIFO_ENTRIES"
      by (simp add: smod_nonneg)
    show ?thesis
    proof (cases "received (superpage ?e) = size_sp (superpage ?e)")
      case False
      with run Some True lt have
        "mSuperpageQueue s' = ?q\<lparr>entries := (entries ?q)[i := ?e]\<rparr>"
        "mPendingDmaStart s' = mPendingDmaStart s"
        "mFifoBack s' = (mFifoBack s + 1) smod READYFIFO_ENTRIES"
        unfolding i
        by (auto simp: arrivalBody_def Let_def updEntry_def entryAt_def isFilled_def
            resetDescriptor_def writeSdhEventSize_def)
      with inv bk' show ?thesis
        unfolding i by (auto simp: filledComplete_def getFilled_def)
    next
      case filled: True
      with run Some True lt pos have
        "mSuperpageQueue s' = ?q\<lparr>entries := (entries ?q)[i := ?e\<lparr>superpage := (superpage ?e)\<lparr>ready := True\<rparr>\<rparr>],
            nFilled := nFilled ?q + 1, nArrivals := nArrivals ?q - 1\<rparr>"
        "mPendingDmaStart s' = mPendingDmaStart s"
        "mFifoBack s' = (mFifoBack s + 1) smod READYFIFO_ENTRIES"
        unfolding i
        by (auto simp: arrivalBody_def Let_def updEntry_def entryAt_def isFilled_def
            resetDescriptor_def writeSdhEventSize_def andThen_def onQueue_def
            moveFromArrivalsToFilledQueue_def getArrivals_def)
      with inv bk' filled lt pos show ?thesis
        unfolding i by (auto simp: filledComplete_def getFilled_def take_Suc_update)
    qed
  qed
qed

lemma arrivalLoop_filledComplete:
  "arrivalLoop cfg s = (r, s') \<Longrightarrow> filledComplete s \<Longrightarrow> filledComplete s'"
proof (induction cfg s arbitrary: r s' rule: arrivalLoop.induct)
  case (1 cfg s)
  show ?case
  proof (cases "0 < mFifoSize s")
    case False
    with "1.prems" show ?thesis
      by (simp add: arrivalLoop.simps [of cfg s])
  next
    case True
    obtain x s1 where body: "arrivalBody cfg s = (x, s1)"
      by (cases "arrivalBody cfg s")
    note inv = arrivalBody_filledComplete [OF body "1.prems"(2)]
    show ?thesis
    proof (cases x)
      case (Inl e)
      with "1.prems" True body inv show ?thesis
        by (auto simp: arrivalLoop.simps [of cfg s])
    next
      case (Inr continue)
      show ?thesis
      proof (cases continue)
        case False
        with "1.prems" True body inv Inr show ?thesis
          by (auto simp: arrivalLoop.simps [of cfg s])
      next
        case c: True
        with "1.prems"(1) True body Inr have rest: "arrivalLoop cfg s1 = (r, s')"
          by (simp add: arrivalLoop.simps [of cfg s])
        from "1.IH" [OF True body [symmetric] Inr c rest inv] show ?thesis .
      qed
    qed
  qed
qed

lemma pushPhase_filledComplete:
  assumes run: "pushPhase cfg hw s = (Inr r, s')" and inv: "filledComplete s"
  shows "filledComplete s'"
proof (cases "getPushingFrontEntry (mSuperpageQueue s)")
  case None
  with run inv show ?thesis
    by (simp add: pushPhase_def)
next
  case (Some i)
  let ?q = "mSuperpageQueue s"
  show ?thesis
  proof (cases "mPendingDmaStart s")
    case True
    with run Some have "startPendingDma cfg hw i s = (Inr r, s')"
      by (simp add: pushPhase_def)
    from startPendingDma_filledComplete [OF this inv True Some] show ?thesis .
  next
    case False
    from Some have i: "i = nFilled ?q + nArrivals ?q" and lt: "i < length (entries ?q)"
      by (auto simp: getPushingFrontEntry_def getPushing_def split: if_splits)
    define n where "n = nat (min (FIFO_QUEUE_MAX cfg - mFifoSize s) (getUnpushedPages (entryAt s i)))"
    from run Some False have
      "andThen (pushLoop cfg hw i n) (\<lambda>_ s. if isPushed (entryAt s i)
          then onQueue removeFromPushingQueue s else (Inr (), s)) s = (Inr r, s')"
      by (simp add: pushPhase_def Let_def n_def)
    then obtain a s1 where loop: "pushLoop cfg hw i n s = (Inr a, s1)"
      and last: "(if isPushed (entryAt s1 i)
          then onQueue removeFromPushingQueue s1 else (Inr (), s1)) = (Inr r, s')"
      by (rule andThen_InrE)
    from pushLoop_frame [OF loop] obtain e where
      f: "nFilled (mSuperpageQueue s1) = nFilled ?q" "nArrivals (mSuperpageQueue s1) = nArrivals ?q"
        "mPendingDmaStart s1 = mPendingDmaStart s" "mFifoBack s1 = mFifoBack s"
        "entries (mSuperpageQueue s1) = (entries ?q)[i := e]"
      by blast
    from f inv i have inv1: "filledComplete s1"
      by (simp add: filledComplete_def getFilled_def)
    from last lt f i have
      "entries (mSuperpageQueue s') = entries (mSuperpageQueue s1)
       \<and> nFilled (mSuperpageQueue s') = nFilled (mSuperpageQueue s1)
       \<and> nArrivals (mSuperpageQueue s') \<le> nArrivals (mSuperpageQueue s1) + 1
       \<and> nFilled (mSuperpageQueue s') + nArrivals (mSuperpageQueue s')
           \<le> length (entries (mSuperpageQueue s'))
       \<and> mPendingDmaStart s' = mPendingDmaStart s1 \<and> mFifoBack s' = mFifoBack s1"
      by (auto simp: onQueue_def removeFromPushingQueue_def getPushing_def
          split: if_splits sum.splits)
    with inv1 False f show ?thesis
      by (auto simp: filledComplete_def getFilled_def)
  qed
qed

lemma fillSuperpages_filledComplete:
  assumes run: "fillSuperpages cfg hw s = (Inr r, s')" and inv: "filledComplete s"
  shows "filledComplete s'"
proof -
  from run obtain a s1 where push: "pushPhase cfg hw s = (Inr a, s1)"
    and arr: "arrivalPhase cfg s1 = (Inr r, s')"
    unfolding fillSuperpages_def by (rule andThen_InrE)
  note inv1 = pushPhase_filledComplete [OF push inv]
  show ?thesis
  proof (cases "getArrivals (mSuperpageQueue s1) \<noteq> []")
    case True
    with arr have "arrivalLoop cfg s1 = (Inr r, s')"
      by (simp add: arrivalPhase_def)
    from arrivalLoop_filledComplete [OF this inv1] show ?thesis .
  next
    case False
    with arr inv1 show ?thesis
      by (simp add: arrivalPhase_def)
  qed
qed

lemma pushSuperpage_filledComplete:
  assumes run: "pushSuperpage cfg sp s = (r, s')" and inv: "filledComplete s"
  shows "filledComplete s'"
  using assms
  by (auto simp: pushSuperpage_def onQueue_def addToQueue_def Let_def filledComplete_def
      getFilled_def split: option.splits if_splits)

lemma popSuperpage_filledComplete:
  assumes run: "popSuperpage s = (r, s')" and inv: "filledComplete s"
  shows "filledComplete s'"
proof (cases "getFilled (mSuperpageQueue s)")
  case Nil
  with run inv show ?thesis
    by (simp add: popSuperpage_def removeFromFilledQueue_def)
next
  case (Cons e es)
  let ?q = "mSuperpageQueue s"
  from Cons have pos: "0 < nFilled ?q" and ne: "entries ?q \<noteq> []"
    by (cases "nFilled ?q"; auto simp: getFilled_def)+
  from run Cons have s': "s' = s\<lparr>mSuperpageQueue := ?q\<lparr>entries := tl (entries ?q),
      nFilled := nFilled ?q - 1\<rparr>\<rparr>"
    by (auto simp: popSuperpage_def removeFromFilledQueue_def)
  from Cons have "take (nFilled ?q - 1) (tl (entries ?q)) = es"
    using pos ne by (cases "entries ?q"; cases "nFilled ?q") (auto simp: getFilled_def)
  with inv Cons pos ne show ?thesis
    unfolding s' by (auto simp: filledComplete_def getFilled_def)
qed

lemma deviceStopDma_filledComplete:
  assumes run: "deviceStopDma cfg hw s = (r, s')" and inv: "filledComplete s"
  shows "filledComplete s'"
proof -
  from run have "mSuperpageQueue s' = mSuperpageQueue s \<and> mPendingDmaStart s' = mPendingDmaStart s
    \<and> mFifoBack s' = mFifoBack s"
    unfolding deviceStopDma_def
    by (auto simp: assign_def mNoRDYRX_def elim!: andThen_cases
        dest!: card_keeps startDataGenerator_keeps split: if_splits)
  with inv show ?thesis
    by (simp add: filledComplete_def)
qed

lemma deviceStartDma_filledComplete: "filledComplete (deviceStartDma s)"
  by (simp add: deviceStartDma_def filledComplete_def getFilled_def clear_def)

lemma exec_filledComplete:
  assumes run: "exec cfg hw operation s = (Inr r, s')" and inv: "filledComplete s"
  shows "filledComplete s'"
proof (cases operation)
  case StartDma
  with run show ?thesis
    by (auto simp: deviceStartDma_filledComplete)
next
  case FillSuperpages
  with run inv show ?thesis
    by (auto dest: fillSuperpages_filledComplete)
next
  case (PushSuperpage sp)
  with run inv show ?thesis
    by (auto dest: pushSuperpage_filledComplete)
next
  case PopSuperpage
  with run inv show ?thesis
    by (auto elim!: andThen_cases dest: popSuperpage_filledComplete)
next
  case StopDma
  with run inv show ?thesis
    by (auto dest: deviceStopDma_filledComplete)
qed

lemma popSuperpage_complete:
  assumes run: "popSuperpage s = (Inr sp, s')" and inv: "filledComplete s"
  shows "ready sp \<and> received sp = size_sp sp"
  using assms
  by (auto simp: popSuperpage_def removeFromFilledQueue_def filledComplete_def
      split: list.splits)

text \<open>
  Claim C10. \<open>pushSuperpage\<close> on the C-RORC channel does not read the \<open>received\<close>
  field of the superpage it is given: two pushes that differ only in that field have the
  same result and leave the same channel, so nothing observed later, through any call,
  depends on it. When the push is accepted, the entry appended to the queue holds the
  superpage with \<open>received\<close> reset to 0 and the other fields as given, and no page of
  it is pushed yet. What is observed later comes from the tick: the channel that
  \<open>deviceStartDma\<close> leaves has every Filled entry marked ready with \<open>received\<close> equal
  to its size, every operation that returns normally keeps it so, and on such a channel
  the superpage that \<open>popSuperpage\<close> returns is ready and fully received.
  \<open>getSuperpage\<close> returns what \<open>SuperpageQueue::getFrontSuperpage\<close> gives, which is
  not among the sources; the entry it reads is one the queue stores.
\<close>

theorem pushSuperpage_ignores_received:
  "pushSuperpage cfg (sp\<lparr>received := r\<rparr>) s = pushSuperpage cfg sp s
   \<and> (fst (pushSuperpage cfg sp s) = Inr () \<longrightarrow>
        entries (mSuperpageQueue (snd (pushSuperpage cfg sp s))) =
          entries (mSuperpageQueue s) @
            [\<lparr>superpage = sp\<lparr>received := 0\<rparr>,
              busAddress = bufferBusAddress cfg + offset sp,
              maxPages = int (size_sp sp div mPageSize cfg),
              pushedPages = 0\<rparr>]
      \<and> received (superpage (last (entries (mSuperpageQueue (snd (pushSuperpage cfg sp s)))))) = 0
      \<and> nFilled (mSuperpageQueue (snd (pushSuperpage cfg sp s))) = nFilled (mSuperpageQueue s)
      \<and> nArrivals (mSuperpageQueue (snd (pushSuperpage cfg sp s))) = nArrivals (mSuperpageQueue s))
   \<and> filledComplete (deviceStartDma s)
   \<and> (filledComplete t \<and> exec cfg hw operation t = (Inr u, t') \<longrightarrow> filledComplete t')
   \<and> (filledComplete v \<and> popSuperpage v = (Inr out, v') \<longrightarrow>
        ready out \<and> received out = size_sp out)"
proof -
  have same: "pushSuperpage cfg (sp\<lparr>received := r\<rparr>) s = pushSuperpage cfg sp s"
    by (simp add: pushSuperpage_def checkSuperpage_def)
  have stored: "fst (pushSuperpage cfg sp s) = Inr () \<longrightarrow>
        entries (mSuperpageQueue (snd (pushSuperpage cfg sp s))) =
          entries (mSuperpageQueue s) @
            [\<lparr>superpage = sp\<lparr>received := 0\<rparr>,
              busAddress = bufferBusAddress cfg + offset sp,
              maxPages = int (size_sp sp div mPageSize cfg),
              pushedPages = 0\<rparr>]
      \<and> received (superpage (last (entries (mSuperpageQueue (snd (pushSuperpage cfg sp s)))))) = 0
      \<and> nFilled (mSuperpageQueue (snd (pushSuperpage cfg sp s))) = nFilled (mSuperpageQueue s)
      \<and> nArrivals (mSuperpageQueue (snd (pushSuperpage cfg sp s))) = nArrivals (mSuperpageQueue s)"
    by (auto simp: pushSuperpage_def Let_def onQueue_def addToQueue_def getBusOffsetAddress_def
        split: option.splits if_splits)
  have kept: "filledComplete t \<and> exec cfg hw operation t = (Inr u, t') \<longrightarrow> filledComplete t'"
    using exec_filledComplete by blast
  have popped: "filledComplete v \<and> popSuperpage v = (Inr out, v') \<longrightarrow>
        ready out \<and> received out = size_sp out"
    using popSuperpage_complete by blast
  show ?thesis
    by (intro conjI same stored deviceStartDma_filledComplete kept popped)
qed

theorem pushSuperpage_ignores_received_witness:
  "fst (pushSuperpage exampleConfig clientSuperpage idleChannel) = Inr ()
   \<and> pushSuperpage exampleConfig (clientSuperpage\<lparr>received := 0\<rparr>) idleChannel
       = pushSuperpage exampleConfig clientSuperpage idleChannel
   \<and> entries (mSuperpageQueue (snd (pushSuperpage exampleConfig clientSuperpage idleChannel))) =
       [\<lparr>superpage = \<lparr>offset = 0, size_sp = 1048576, received = 0, ready = False\<rparr>,
         busAddress = 0x80000000, maxPages = 128, pushedPages = 0\<rparr>]
   \<and> filledComplete (snd (pushSuperpage exampleConfig clientSuperpage (deviceStartDma idleChannel)))
   \<and> exec exampleConfig healthyCard FillSuperpages
        (snd (pushSuperpage exampleConfig clientSuperpage (deviceStartDma idleChannel)))
      = (Inr (), snd (fillSuperpages exampleConfig healthyCard
          (snd (pushSuperpage exampleConfig clientSuperpage (deviceStartDma idleChannel)))))
   \<and> filledComplete (snd (fillSuperpages exampleConfig healthyCard
          (snd (pushSuperpage exampleConfig clientSuperpage (deviceStartDma idleChannel)))))
   \<and> popSuperpage (snd (fillSuperpages exampleConfig healthyCard
          (snd (pushSuperpage exampleConfig clientSuperpage (deviceStartDma idleChannel)))))
      = (Inr \<lparr>offset = 0, size_sp = 1048576, received = 1048576, ready = True\<rparr>,
         snd (popSuperpage (snd (fillSuperpages exampleConfig healthyCard
          (snd (pushSuperpage exampleConfig clientSuperpage (deviceStartDma idleChannel)))))))"
proof -
  let ?p = "snd (pushSuperpage exampleConfig clientSuperpage (deviceStartDma idleChannel))"
  let ?f = "snd (fillSuperpages exampleConfig healthyCard ?p)"
  let ?out = "\<lparr>offset = 0, size_sp = 1048576, received = 1048576, ready = True\<rparr>"
  have ok: "fst (pushSuperpage exampleConfig clientSuperpage idleChannel) = Inr ()"
    by (simp add: pushSuperpage_def checkSuperpage_def clientSuperpage_def exampleConfig_def
        idleChannel_def isMultiple_def MIN_SIZE_def Let_def onQueue_def addToQueue_def
        getQueueAvailable_def getPushing_def getArrivals_def clear_def)
  have c: "mPageSize exampleConfig = 8192" "FIFO_QUEUE_MAX exampleConfig = 128"
    "1048576 \<le> bufferSize exampleConfig" "0 < MAX_SUPERPAGES exampleConfig"
    by (simp_all add: exampleConfig_def)
  have nofail: "\<forall>log. \<not> cardFails healthyCard log"
    by (simp add: healthyCard_def)
  have arrival: "\<forall>fifo. entry_status (afterWait healthyCard fifo 127) = - 1
        \<or> entry_status (afterWait healthyCard fifo 127) = 0
        \<or> (entry_status (afterWait healthyCard fifo 127) AND 0xff = DTSW
            \<and> entry_status (afterWait healthyCard fifo 127) AND push_bit 31 1 = 0)"
    by (simp add: healthyCard_def DTSW_def)
  have sp: "offset clientSuperpage = 0" "size_sp clientSuperpage = 1048576"
    by (simp_all add: clientSuperpage_def)
  note run = cold_start_run [OF c nofail arrival sp refl refl, where ?s0.0 = idleChannel]
  have fill: "exec exampleConfig healthyCard FillSuperpages ?p = (Inr (), ?f)"
    using run(2) by (simp add: prod_eq_iff)
  have pop: "popSuperpage ?f = (Inr ?out, snd (popSuperpage ?f))"
    using run(10) by (simp add: prod_eq_iff)
  have started: "filledComplete ?p"
    by (rule pushSuperpage_filledComplete [OF prod.collapse [symmetric] deviceStartDma_filledComplete])
  note claim = pushSuperpage_ignores_received [where cfg = exampleConfig and sp = clientSuperpage
      and r = 0 and s = idleChannel and hw = healthyCard and operation = FillSuperpages
      and t = ?p and u = "()" and t' = ?f and v = ?f and out = ?out
      and v' = "snd (popSuperpage ?f)"]
  from claim started fill have filled: "filledComplete ?f"
    by blast
  from claim ok have first: "pushSuperpage exampleConfig (clientSuperpage\<lparr>received := 0\<rparr>) idleChannel
       = pushSuperpage exampleConfig clientSuperpage idleChannel"
    "entries (mSuperpageQueue (snd (pushSuperpage exampleConfig clientSuperpage idleChannel))) =
       [\<lparr>superpage = \<lparr>offset = 0, size_sp = 1048576, received = 0, ready = False\<rparr>,
         busAddress = 0x80000000, maxPages = 128, pushedPages = 0\<rparr>]"
    by (simp_all add: clientSuperpage_def exampleConfig_def idleChannel_def clear_def)
  show ?thesis
    by (intro conjI ok first started fill filled pop)
qed

section \<open>Verification: a hardware error in the tick\<close>












end
